theory Spec2Isabelle
  imports Main "HOL-Library.Word"
begin

unbundle bit_operations_syntax

section \<open>hashmap.c: the open-addressing table\<close>

subsection \<open>Data model\<close>

text \<open>
  Modelled from the spec: the type \<^verbatim>\<open>any_t\<close> of \<^verbatim>\<open>hashmap.h\<close>, which is not among the
  sources. It carries both the \<^verbatim>\<open>size_t\<close> hashes and the \<^verbatim>\<open>void *\<close> items that
  \<^verbatim>\<open>BRSet.c\<close> passes (the spec's unsigned integer key and opaque reference), so it is
  pointer sized; it is taken as a 64-bit word (LP64), as is \<^verbatim>\<open>size_t\<close>. An
  \<^verbatim>\<open>unsigned int\<close> is a 32-bit word.

  The C \<^verbatim>\<open>int\<close> fields are modelled as follows: \<^verbatim>\<open>table_size\<close> and the slot indices
  are natural numbers (they are never negative: the table size only takes the values
  \<open>256 * 2 ^ k\<close>), \<^verbatim>\<open>size\<close> and \<^verbatim>\<open>in_use\<close> are integers (\<^verbatim>\<open>size\<close> can be driven below zero).
  Signed overflow of an \<^verbatim>\<open>int\<close> is undefined in C and outside this model: the model
  is the C program as long as no table has more than \<open>2 ^ 30\<close> slots, which an allocator
  bound \<open>lim < 2 ^ 30\<close> ensures (see \<open>calloc\<close> below).
\<close>

type_synonym any_t = "64 word"

definition NULL :: any_t where
  "NULL = 0"

definition INITIAL_SIZE :: nat where
  "INITIAL_SIZE = 256"

definition MAX_CHAIN_LENGTH :: nat where
  "MAX_CHAIN_LENGTH = 8"

record hashmap_element =
  key :: "64 word"
  in_use :: int
  data :: any_t

record hashmap_map =
  table_size :: nat
  size_m :: int
  data_m :: "hashmap_element list"

text \<open>
  Modelled from the spec: the status codes of \<^verbatim>\<open>hashmap.h\<close> (not among the sources).
  \<^verbatim>\<open>MAP_OK\<close>, \<^verbatim>\<open>MAP_OMEM\<close> and \<^verbatim>\<open>MAP_MISSING\<close> are the results of the operations;
  \<^verbatim>\<open>MAP_FULL\<close> is the result of \<^verbatim>\<open>hashmap_hash\<close> that is not a slot index.
\<close>

datatype status = MAP_OK | MAP_OMEM | MAP_MISSING

datatype location = Slot nat | MAP_FULL

text \<open>
  The allocator is external. \<^verbatim>\<open>calloc\<close> is modelled by a bound \<open>lim\<close> on the number of
  elements it grants in one request; a granted array is zeroed.
\<close>

definition zero_element :: hashmap_element where
  "zero_element = \<lparr>key = 0, in_use = 0, data = NULL\<rparr>"

definition calloc :: "nat \<Rightarrow> nat \<Rightarrow> hashmap_element list option" where
  "calloc lim n = (if n \<le> lim then Some (replicate n zero_element) else None)"

subsection \<open>Operations\<close>

definition hashmap_new :: "nat \<Rightarrow> hashmap_map option" where
  "hashmap_new lim =
     (case calloc lim INITIAL_SIZE of
        None \<Rightarrow> None
      | Some d \<Rightarrow> Some \<lparr>table_size = INITIAL_SIZE, size_m = 0, data_m = d\<rparr>)"

definition mix32 :: "32 word \<Rightarrow> 32 word" where
  "mix32 key0 =
     (let key1 = key0 + push_bit 12 key0;
          key2 = key1 XOR drop_bit 22 key1;
          key3 = key2 + push_bit 4 key2;
          key4 = key3 XOR drop_bit 9 key3;
          key5 = key4 + push_bit 10 key4;
          key6 = key5 XOR drop_bit 2 key5;
          key7 = key6 + push_bit 7 key6;
          key8 = key7 XOR drop_bit 12 key7
      in drop_bit 3 key8 * 2654435761)"

definition hashmap_hash_int :: "hashmap_map \<Rightarrow> any_t \<Rightarrow> nat" where
  "hashmap_hash_int m inKey = unat (mix32 (ucast inKey)) mod table_size m"

fun hash_probe :: "hashmap_map \<Rightarrow> any_t \<Rightarrow> nat \<Rightarrow> nat \<Rightarrow> location" where
  "hash_probe m k cur 0 = MAP_FULL"
| "hash_probe m k cur (Suc n) =
     (if in_use (data_m m ! cur) = 0 then Slot cur
      else if in_use (data_m m ! cur) = 1 \<and> key (data_m m ! cur) = k then Slot cur
      else hash_probe m k ((cur + 1) mod table_size m) n)"

definition hashmap_hash :: "hashmap_map \<Rightarrow> any_t \<Rightarrow> location" where
  "hashmap_hash m k =
     (if size_m m \<ge> int (table_size m div 2) then MAP_FULL
      else hash_probe m k (hashmap_hash_int m k) MAX_CHAIN_LENGTH)"

text \<open>
  \<^verbatim>\<open>hashmap_put\<close> and \<^verbatim>\<open>hashmap_rehash\<close> call each other, and the \<^verbatim>\<open>while\<close> loop of
  \<^verbatim>\<open>hashmap_put\<close> runs until a slot is found or an allocation fails. The recursion is
  bounded by a fuel that one level of rehashing consumes; running out of fuel is the
  result \<open>None\<close>. The \<^verbatim>\<open>for\<close> loop of \<^verbatim>\<open>hashmap_rehash\<close> runs over the first
  \<^verbatim>\<open>old_size\<close> elements of the old array.
\<close>

fun hashmap_put_fuel ::
    "nat \<Rightarrow> nat \<Rightarrow> hashmap_map \<Rightarrow> any_t \<Rightarrow> any_t \<Rightarrow> (status \<times> hashmap_map) option"
  and hashmap_rehash_fuel :: "nat \<Rightarrow> nat \<Rightarrow> hashmap_map \<Rightarrow> (status \<times> hashmap_map) option"
  and rehash_loop ::
    "nat \<Rightarrow> nat \<Rightarrow> hashmap_map \<Rightarrow> hashmap_element list \<Rightarrow> (status \<times> hashmap_map) option"
where
  "hashmap_put_fuel lim fuel m k v =
     (case hashmap_hash m k of
        Slot index \<Rightarrow>
          Some (MAP_OK,
            m\<lparr>data_m := (data_m m)[index := (data_m m ! index)\<lparr>data := v, key := k, in_use := 1\<rparr>],
              size_m := size_m m + 1\<rparr>)
      | MAP_FULL \<Rightarrow>
          (case fuel of
             0 \<Rightarrow> None
           | Suc f \<Rightarrow>
               (case hashmap_rehash_fuel lim f m of
                  None \<Rightarrow> None
                | Some (st, m') \<Rightarrow>
                    if st = MAP_OMEM then Some (MAP_OMEM, m')
                    else hashmap_put_fuel lim f m' k v)))"
| "hashmap_rehash_fuel lim f m =
     (case calloc lim (2 * table_size m) of
        None \<Rightarrow> Some (MAP_OMEM, m)
      | Some temp \<Rightarrow>
          rehash_loop lim f
            (m\<lparr>data_m := temp, table_size := 2 * table_size m, size_m := 0\<rparr>)
            (take (table_size m) (data_m m)))"
| "rehash_loop lim f m [] = Some (MAP_OK, m)"
| "rehash_loop lim f m (e # es) =
     (if in_use e = 0 then rehash_loop lim f m es
      else
        (case hashmap_put_fuel lim f m (key e) (data e) of
           None \<Rightarrow> None
         | Some (st, m') \<Rightarrow>
             if st \<noteq> MAP_OK then Some (st, m') else rehash_loop lim f m' es))"

text \<open>
  Each rehash at least doubles the table and \<^verbatim>\<open>calloc\<close> refuses more than \<open>lim\<close>
  elements, so a fuel of \<open>lim + 1\<close> is never used up (lemma \<open>hashmap_put_returns\<close> below).
\<close>

definition hashmap_put ::
    "nat \<Rightarrow> hashmap_map \<Rightarrow> any_t \<Rightarrow> any_t \<Rightarrow> (status \<times> hashmap_map) option" where
  "hashmap_put lim m k v = hashmap_put_fuel lim (Suc lim) m k v"

definition hashmap_rehash :: "nat \<Rightarrow> hashmap_map \<Rightarrow> (status \<times> hashmap_map) option" where
  "hashmap_rehash lim m = hashmap_rehash_fuel lim (Suc lim) m"

fun get_probe :: "hashmap_map \<Rightarrow> any_t \<Rightarrow> nat \<Rightarrow> nat \<Rightarrow> any_t" where
  "get_probe m k cur 0 = NULL"
| "get_probe m k cur (Suc n) =
     (if in_use (data_m m ! cur) = 1 \<and> key (data_m m ! cur) = k then data (data_m m ! cur)
      else get_probe m k ((cur + 1) mod table_size m) n)"

definition hashmap_get :: "hashmap_map \<Rightarrow> any_t \<Rightarrow> any_t" where
  "hashmap_get m k = get_probe m k (hashmap_hash_int m k) MAX_CHAIN_LENGTH"

fun remove_probe :: "hashmap_map \<Rightarrow> any_t \<Rightarrow> nat \<Rightarrow> nat \<Rightarrow> status \<times> hashmap_map" where
  "remove_probe m k cur 0 = (MAP_MISSING, m)"
| "remove_probe m k cur (Suc n) =
     (if in_use (data_m m ! cur) = 1 \<and> key (data_m m ! cur) = k
      then (MAP_OK,
            m\<lparr>data_m := (data_m m)[cur := (data_m m ! cur)\<lparr>in_use := 0, data := NULL, key := 0\<rparr>],
              size_m := size_m m - 1\<rparr>)
      else remove_probe m k ((cur + 1) mod table_size m) n)"

definition hashmap_remove :: "hashmap_map \<Rightarrow> any_t \<Rightarrow> status \<times> hashmap_map" where
  "hashmap_remove m k = remove_probe m k (hashmap_hash_int m k) MAX_CHAIN_LENGTH"

text \<open>
  The body of the loop of \<^verbatim>\<open>hashmap_clear\<close> ends with \<^verbatim>\<open>return MAP_OK\<close>, so the first
  iteration (\<open>i = 0\<close>) is the only one.
\<close>

fun clear_loop :: "hashmap_map \<Rightarrow> nat \<Rightarrow> nat \<Rightarrow> status \<times> hashmap_map" where
  "clear_loop m i 0 = (MAP_MISSING, m)"
| "clear_loop m i (Suc n) =
     (MAP_OK,
      m\<lparr>data_m := (data_m m)[i := (data_m m ! i)\<lparr>in_use := 0, data := NULL, key := 0\<rparr>],
        size_m := size_m m - 1\<rparr>)"

definition hashmap_clear :: "hashmap_map \<Rightarrow> status \<times> hashmap_map" where
  "hashmap_clear m = clear_loop m 0 MAX_CHAIN_LENGTH"

text \<open>
  \<^verbatim>\<open>hashmap_get_index\<close> reads the array without a bound check; a read outside the array
  is the result \<open>None\<close>.
\<close>

definition hashmap_get_index :: "hashmap_map \<Rightarrow> nat \<Rightarrow> any_t option" where
  "hashmap_get_index m index =
     (if index < length (data_m m) then Some (data (data_m m ! index)) else None)"

text \<open>The argument of \<^verbatim>\<open>hashmap_length\<close> is a pointer, \<open>None\<close> being the null pointer.\<close>

fun hashmap_length :: "hashmap_map option \<Rightarrow> int" where
  "hashmap_length (Some m) = size_m m"
| "hashmap_length None = 0"

section \<open>BRSet.c: the set layer\<close>

text \<open>
  An item is a non-null pointer; the caller's hash function is a function of the item.
  An assertion that fails aborts the program: the result \<open>None\<close>. \<^verbatim>\<open>_BRSetInit\<close> stores
  what \<^verbatim>\<open>hashmap_new\<close> returns without a check. When the table could not be allocated
  the C set has a null map: \<^verbatim>\<open>hashmap_length\<close> then answers 0, so \<^verbatim>\<open>BRSetCount\<close> is 0 and
  \<^verbatim>\<open>BRSetApply\<close> calls nothing, and every other operation dereferences the null pointer.
  The record below is a set with a table; \<open>BRSetNew\<close> is \<open>None\<close> where C returns the set
  with the null map, and all statements about sets start from a \<open>BRSetNew\<close> that is
  \<open>Some\<close>.
\<close>

record BRSet =
  map_s :: hashmap_map
  hash :: "any_t \<Rightarrow> 64 word"
  eq :: "any_t \<Rightarrow> any_t \<Rightarrow> int"

definition BRSetNew ::
    "nat \<Rightarrow> (any_t \<Rightarrow> 64 word) \<Rightarrow> (any_t \<Rightarrow> any_t \<Rightarrow> int) \<Rightarrow> nat \<Rightarrow> BRSet option" where
  "BRSetNew lim hash_fn eq_fn capacity =
     (case hashmap_new lim of
        None \<Rightarrow> None
      | Some m \<Rightarrow> Some \<lparr>map_s = m, hash = hash_fn, eq = eq_fn\<rparr>)"

text \<open>\<^verbatim>\<open>BRSetAdd\<close> drops the status of \<^verbatim>\<open>hashmap_put\<close>; \<open>BRSetAdd_status\<close> is that status.\<close>

definition BRSetAdd :: "nat \<Rightarrow> BRSet \<Rightarrow> any_t \<Rightarrow> (any_t \<times> BRSet) option" where
  "BRSetAdd lim s item =
     (if item = NULL then None
      else
        (let h = hash s item; t = hashmap_get (map_s s) h
         in case hashmap_put lim (map_s s) h item of
              None \<Rightarrow> None
            | Some (st, m') \<Rightarrow> Some (t, s\<lparr>map_s := m'\<rparr>)))"

definition BRSetAdd_status :: "nat \<Rightarrow> BRSet \<Rightarrow> any_t \<Rightarrow> status option" where
  "BRSetAdd_status lim s item = map_option fst (hashmap_put lim (map_s s) (hash s item) item)"

definition BRSetRemove :: "BRSet \<Rightarrow> any_t \<Rightarrow> (any_t \<times> BRSet) option" where
  "BRSetRemove s item =
     (if item = NULL then None
      else
        (let h = hash s item; r = hashmap_get (map_s s) h
         in Some (r, s\<lparr>map_s := snd (hashmap_remove (map_s s) h)\<rparr>)))"

definition BRSetClear :: "BRSet \<Rightarrow> BRSet" where
  "BRSetClear s = s\<lparr>map_s := snd (hashmap_clear (map_s s))\<rparr>"

text \<open>\<^verbatim>\<open>BRSetCount\<close> returns the \<^verbatim>\<open>int\<close> of \<^verbatim>\<open>hashmap_length\<close> as a \<^verbatim>\<open>size_t\<close>.\<close>

definition BRSetCount :: "BRSet \<Rightarrow> 64 word" where
  "BRSetCount s = word_of_int (hashmap_length (Some (map_s s)))"

definition BRSetGet :: "BRSet \<Rightarrow> any_t \<Rightarrow> any_t option" where
  "BRSetGet s item =
     (if item = NULL then None else Some (hashmap_get (map_s s) (hash s item)))"

definition BRSetContains :: "BRSet \<Rightarrow> any_t \<Rightarrow> bool option" where
  "BRSetContains s item = map_option (\<lambda>t. t \<noteq> NULL) (BRSetGet s item)"

text \<open>
  \<^verbatim>\<open>BRSetApply\<close> runs \<open>i\<close> from 0 up to \<^verbatim>\<open>hashmap_length\<close> (as a \<^verbatim>\<open>size_t\<close>); \<open>n\<close> counts
  the iterations left. The callback \<open>apply\<close> acts on the caller's \<open>info\<close>.
\<close>

fun apply_loop ::
    "hashmap_map \<Rightarrow> ('i \<Rightarrow> any_t \<Rightarrow> 'i) \<Rightarrow> nat \<Rightarrow> nat \<Rightarrow> 'i \<Rightarrow> 'i option" where
  "apply_loop m apply i 0 info = Some info"
| "apply_loop m apply i (Suc n) info =
     (case hashmap_get_index m i of
        None \<Rightarrow> None
      | Some t \<Rightarrow> apply_loop m apply (i + 1) n (if t \<noteq> NULL then apply info t else info))"

definition BRSetApply :: "BRSet \<Rightarrow> 'i \<Rightarrow> ('i \<Rightarrow> any_t \<Rightarrow> 'i) \<Rightarrow> 'i option" where
  "BRSetApply s info apply =
     apply_loop (map_s s) apply 0
       (unat (word_of_int (hashmap_length (Some (map_s s))) :: 64 word)) info"

text \<open>A run of \<^verbatim>\<open>BRSetAdd\<close> calls; \<open>BRSetAdd_list_ok\<close> says that every put of the run
  reported \<^verbatim>\<open>MAP_OK\<close>.\<close>

fun BRSetAdd_list :: "nat \<Rightarrow> BRSet \<Rightarrow> any_t list \<Rightarrow> BRSet option" where
  "BRSetAdd_list lim s [] = Some s"
| "BRSetAdd_list lim s (x # xs) =
     (case BRSetAdd lim s x of None \<Rightarrow> None | Some (t, s') \<Rightarrow> BRSetAdd_list lim s' xs)"

fun BRSetAdd_list_ok :: "nat \<Rightarrow> BRSet \<Rightarrow> any_t list \<Rightarrow> bool" where
  "BRSetAdd_list_ok lim s [] = True"
| "BRSetAdd_list_ok lim s (x # xs) =
     (BRSetAdd_status lim s x = Some MAP_OK \<and>
      (case BRSetAdd lim s x of None \<Rightarrow> False | Some (t, s') \<Rightarrow> BRSetAdd_list_ok lim s' xs))"

text \<open>
  A run of puts. \<open>hashmap_put_list\<close> stops with \<open>None\<close> at a put that does not report
  \<^verbatim>\<open>MAP_OK\<close>; \<open>hashmap_put_run\<close> goes on whatever the status is, as a caller that drops
  the status does.
\<close>

fun hashmap_put_list :: "nat \<Rightarrow> hashmap_map \<Rightarrow> (any_t \<times> any_t) list \<Rightarrow> hashmap_map option" where
  "hashmap_put_list lim m [] = Some m"
| "hashmap_put_list lim m ((k, v) # kvs) =
     (case hashmap_put lim m k v of
        None \<Rightarrow> None
      | Some (st, m') \<Rightarrow> if st = MAP_OK then hashmap_put_list lim m' kvs else None)"

fun hashmap_put_run :: "nat \<Rightarrow> hashmap_map \<Rightarrow> (any_t \<times> any_t) list \<Rightarrow> hashmap_map option" where
  "hashmap_put_run lim m [] = Some m"
| "hashmap_put_run lim m ((k, v) # kvs) =
     (case hashmap_put lim m k v of
        None \<Rightarrow> None
      | Some (st, m') \<Rightarrow> hashmap_put_run lim m' kvs)"

text \<open>The loop of \<^verbatim>\<open>hashmap_rehash\<close> from index \<open>i\<close> on, used to evaluate it on a table.\<close>

definition rehash_from ::
    "nat \<Rightarrow> nat \<Rightarrow> hashmap_map \<Rightarrow> hashmap_element list \<Rightarrow> nat \<Rightarrow> (status \<times> hashmap_map) option" where
  "rehash_from lim f m xs i = rehash_loop lim f m (drop i xs)"

section \<open>Notions used in the statements\<close>

text \<open>The number of occupied slots, the \<open>j\<close>-th slot of the probe sequence of a key, and
  the table that \<^verbatim>\<open>hashmap_new\<close> returns.\<close>

definition occupied :: "hashmap_map \<Rightarrow> nat" where
  "occupied m = length (filter (\<lambda>e. in_use e \<noteq> 0) (data_m m))"

definition probe_pos :: "hashmap_map \<Rightarrow> any_t \<Rightarrow> nat \<Rightarrow> nat" where
  "probe_pos m k j = (hashmap_hash_int m k + j) mod table_size m"

definition fresh_table :: hashmap_map where
  "fresh_table = \<lparr>table_size = 256, size_m = 0, data_m = replicate 256 zero_element\<rparr>"

text \<open>Repeated calls of \<^verbatim>\<open>hashmap_clear\<close>.\<close>

fun clear_times :: "nat \<Rightarrow> hashmap_map \<Rightarrow> hashmap_map" where
  "clear_times 0 m = m"
| "clear_times (Suc n) m = clear_times n (snd (hashmap_clear m))"

subsection \<open>Concrete tables\<close>

text \<open>Key 19 has base index 3 in a table of 256 slots; keys 214 and 217 both have base
  index 2; keys 1, 2 and 3 have base indices 150, 221 and 170.\<close>

definition table_19 :: hashmap_map where
  "table_19 = \<lparr>table_size = 256, size_m = 1,
     data_m = (replicate 256 zero_element)[3 := \<lparr>key = 19, in_use = 1, data = 7\<rparr>]\<rparr>"





definition set_123 :: BRSet where
  "set_123 = \<lparr>map_s = \<lparr>table_size = 256, size_m = 3,
       data_m = (replicate 256 zero_element)
         [150 := \<lparr>key = 1, in_use = 1, data = 1\<rparr>,
          221 := \<lparr>key = 2, in_use = 1, data = 2\<rparr>,
          170 := \<lparr>key = 3, in_use = 1, data = 3\<rparr>]\<rparr>,
     hash = (\<lambda>item. item), eq = (\<lambda>a b. if a = b then 1 else 0)\<rparr>"

subsection \<open>Invariants\<close>

text \<open>
  \<open>table_ok\<close>: the array has \<^verbatim>\<open>table_size\<close> slots, and there is at least one.
  \<open>load_ok\<close>: the count is at most half the capacity.
  \<open>entries\<close>: the key/value pairs of the occupied slots.
  \<open>chain_ok\<close>: every occupied slot has \<^verbatim>\<open>in_use = 1\<close> and is reached from the base
  index of its key within the probe bound through occupied slots only, and no key sits
  in two occupied slots. \<open>count_ok\<close>: the count is the number of occupied slots.
\<close>

definition table_ok :: "hashmap_map \<Rightarrow> bool" where
  "table_ok m \<longleftrightarrow> length (data_m m) = table_size m \<and> 0 < table_size m"

definition load_ok :: "hashmap_map \<Rightarrow> bool" where
  "load_ok m \<longleftrightarrow> size_m m \<le> int (table_size m div 2)"

definition entries :: "hashmap_map \<Rightarrow> (any_t \<times> any_t) set" where
  "entries m =
     {(key (data_m m ! i), data (data_m m ! i)) | i.
        i < length (data_m m) \<and> in_use (data_m m ! i) \<noteq> 0}"

definition chain_ok :: "hashmap_map \<Rightarrow> bool" where
  "chain_ok m \<longleftrightarrow>
     table_ok m \<and>
     (\<forall>i<table_size m. in_use (data_m m ! i) \<noteq> 0 \<longrightarrow>
        in_use (data_m m ! i) = 1 \<and>
        (\<exists>j<MAX_CHAIN_LENGTH. probe_pos m (key (data_m m ! i)) j = i \<and>
           (\<forall>j'<j. in_use (data_m m ! probe_pos m (key (data_m m ! i)) j') \<noteq> 0))) \<and>
     (\<forall>i<table_size m. \<forall>i'<table_size m.
        in_use (data_m m ! i) \<noteq> 0 \<and> in_use (data_m m ! i') \<noteq> 0 \<and>
        key (data_m m ! i) = key (data_m m ! i') \<longrightarrow> i = i')"

definition count_ok :: "hashmap_map \<Rightarrow> bool" where
  "count_ok m \<longleftrightarrow> size_m m = int (occupied m)"

text \<open>The tables that the operations of \<^verbatim>\<open>hashmap.c\<close> produce from a new one.\<close>

inductive reachable :: "nat \<Rightarrow> hashmap_map \<Rightarrow> bool" for lim :: nat where
  reach_new: "hashmap_new lim = Some m \<Longrightarrow> reachable lim m"
| reach_put: "reachable lim m \<Longrightarrow> hashmap_put lim m k v = Some (st, m') \<Longrightarrow> reachable lim m'"
| reach_remove: "reachable lim m \<Longrightarrow> hashmap_remove m k = (st, m') \<Longrightarrow> reachable lim m'"
| reach_clear: "reachable lim m \<Longrightarrow> hashmap_clear m = (st, m') \<Longrightarrow> reachable lim m'"

text \<open>
  The keys 31, 56, 221, 482, 657, 678, 752 and 814 all have base index 88 in a table of
  256 slots, and so has key 843: its put finds the 8 probed slots taken and rehashes.
\<close>

definition growth_kvs :: "(any_t \<times> any_t) list" where
  "growth_kvs = [(31, 1031), (56, 1056), (221, 1221), (482, 1482), (657, 1657), (678, 1678),
     (752, 1752), (814, 1814)]"

definition growth_table_8 :: hashmap_map where
  "growth_table_8 = \<lparr>table_size = 256, size_m = 8,
     data_m = (replicate 256 zero_element)
       [88 := \<lparr>key = 31, in_use = 1, data = 1031\<rparr>, 89 := \<lparr>key = 56, in_use = 1, data = 1056\<rparr>,
        90 := \<lparr>key = 221, in_use = 1, data = 1221\<rparr>, 91 := \<lparr>key = 482, in_use = 1, data = 1482\<rparr>,
        92 := \<lparr>key = 657, in_use = 1, data = 1657\<rparr>, 93 := \<lparr>key = 678, in_use = 1, data = 1678\<rparr>,
        94 := \<lparr>key = 752, in_use = 1, data = 1752\<rparr>, 95 := \<lparr>key = 814, in_use = 1, data = 1814\<rparr>]\<rparr>"

definition growth_table_rehashed :: hashmap_map where
  "growth_table_rehashed = \<lparr>table_size = 512, size_m = 8,
     data_m = (replicate 512 zero_element)
       [88 := \<lparr>key = 31, in_use = 1, data = 1031\<rparr>, 89 := \<lparr>key = 56, in_use = 1, data = 1056\<rparr>,
        90 := \<lparr>key = 221, in_use = 1, data = 1221\<rparr>, 344 := \<lparr>key = 482, in_use = 1, data = 1482\<rparr>,
        91 := \<lparr>key = 657, in_use = 1, data = 1657\<rparr>, 92 := \<lparr>key = 678, in_use = 1, data = 1678\<rparr>,
        93 := \<lparr>key = 752, in_use = 1, data = 1752\<rparr>, 94 := \<lparr>key = 814, in_use = 1, data = 1814\<rparr>]\<rparr>"

definition growth_table_9 :: hashmap_map where
  "growth_table_9 = \<lparr>table_size = 512, size_m = 9,
     data_m = (replicate 512 zero_element)
       [88 := \<lparr>key = 31, in_use = 1, data = 1031\<rparr>, 89 := \<lparr>key = 56, in_use = 1, data = 1056\<rparr>,
        90 := \<lparr>key = 221, in_use = 1, data = 1221\<rparr>, 344 := \<lparr>key = 482, in_use = 1, data = 1482\<rparr>,
        91 := \<lparr>key = 657, in_use = 1, data = 1657\<rparr>, 92 := \<lparr>key = 678, in_use = 1, data = 1678\<rparr>,
        93 := \<lparr>key = 752, in_use = 1, data = 1752\<rparr>, 94 := \<lparr>key = 814, in_use = 1, data = 1814\<rparr>,
        345 := \<lparr>key = 843, in_use = 1, data = 1843\<rparr>]\<rparr>"

text \<open>
  Nine keys that agree on their low 32 bits: \<^verbatim>\<open>hashmap_hash_int\<close> reads the key as an
  \<^verbatim>\<open>unsigned int\<close>, so they have one base index in a table of any size.
\<close>

definition colliding_keys_8 :: "any_t list" where
  "colliding_keys_8 = [1, 4294967297, 8589934593, 12884901889, 17179869185, 21474836481,
     25769803777, 30064771073]"

definition colliding_key_9 :: any_t where
  "colliding_key_9 = 34359738369"

definition colliding_kvs_127 :: "(any_t \<times> any_t) list" where
  "colliding_kvs_127 =
     map (\<lambda>x. (x, x)) (colliding_keys_8 @ [colliding_key_9] @ map of_nat [2..<120])"

text \<open>
  The table with key 19 after 128 puts of that key (the count is 128, half the capacity),
  what \<^verbatim>\<open>hashmap_rehash\<close> makes of it, and the table after the put of key 214 that follows.
\<close>

definition table_19_full :: hashmap_map where
  "table_19_full = \<lparr>table_size = 256, size_m = 128,
     data_m = (replicate 256 zero_element)[3 := \<lparr>key = 19, in_use = 1, data = 7\<rparr>]\<rparr>"

definition table_19_rehashed :: hashmap_map where
  "table_19_rehashed = \<lparr>table_size = 512, size_m = 1,
     data_m = (replicate 512 zero_element)[259 := \<lparr>key = 19, in_use = 1, data = 7\<rparr>]\<rparr>"

definition table_19_grown :: hashmap_map where
  "table_19_grown = \<lparr>table_size = 512, size_m = 2,
     data_m = (replicate 512 zero_element)
       [259 := \<lparr>key = 19, in_use = 1, data = 7\<rparr>, 2 := \<lparr>key = 214, in_use = 1, data = 7\<rparr>]\<rparr>"

section \<open>Basic facts\<close>

declare hashmap_put_fuel.simps [simp del] hashmap_rehash_fuel.simps [simp del]

lemma element_written [simp]:
  "(e::hashmap_element)\<lparr>data := v, key := k, in_use := u\<rparr> = \<lparr>key = k, in_use = u, data = v\<rparr>"
  by (cases e) simp

lemma element_blanked [simp]:
  "(e::hashmap_element)\<lparr>in_use := 0, data := NULL, key := 0\<rparr> = zero_element"
  by (cases e) (simp add: zero_element_def)

lemma zero_element_simps [simp]:
  "key zero_element = 0" "in_use zero_element = 0" "data zero_element = NULL"
  by (simp_all add: zero_element_def)

lemma fresh_table_simps [simp]:
  "table_size fresh_table = 256" "size_m fresh_table = 0" "length (data_m fresh_table) = 256"
  by (simp_all add: fresh_table_def)

lemma fresh_table_nth [simp]: "i < 256 \<Longrightarrow> data_m fresh_table ! i = zero_element"
  by (simp add: fresh_table_def)

lemma hashmap_new_eq: "hashmap_new lim = (if 256 \<le> lim then Some fresh_table else None)"
  by (simp add: hashmap_new_def calloc_def INITIAL_SIZE_def fresh_table_def)

lemma chain_Suc: "MAX_CHAIN_LENGTH = Suc 7"
  by (simp add: MAX_CHAIN_LENGTH_def)

lemma hashmap_hash_int_less: "0 < table_size m \<Longrightarrow> hashmap_hash_int m k < table_size m"
  by (simp add: hashmap_hash_int_def)

lemma probe_pos_0: "probe_pos m k 0 = hashmap_hash_int m k"
  by (simp add: probe_pos_def hashmap_hash_int_def)

lemma probe_pos_Suc: "(probe_pos m k j + 1) mod table_size m = probe_pos m k (Suc j)"
  by (simp add: probe_pos_def mod_Suc_eq)

lemma hashmap_put_fuel_Slot:
  "hashmap_hash m k = Slot i \<Longrightarrow>
   hashmap_put_fuel lim fuel m k v =
     Some (MAP_OK, m\<lparr>data_m := (data_m m)[i := \<lparr>key = k, in_use = 1, data = v\<rparr>],
                     size_m := size_m m + 1\<rparr>)"
  by (simp add: hashmap_put_fuel.simps)

lemma hashmap_put_Slot:
  "hashmap_hash m k = Slot i \<Longrightarrow>
   hashmap_put lim m k v =
     Some (MAP_OK, m\<lparr>data_m := (data_m m)[i := \<lparr>key = k, in_use = 1, data = v\<rparr>],
                     size_m := size_m m + 1\<rparr>)"
  by (simp add: hashmap_put_def hashmap_put_fuel_Slot)

lemma hashmap_hash_first:
  assumes "size_m m < int (table_size m div 2)"
    and "in_use (data_m m ! hashmap_hash_int m k) = 0 \<or>
         in_use (data_m m ! hashmap_hash_int m k) = 1 \<and> key (data_m m ! hashmap_hash_int m k) = k"
  shows "hashmap_hash m k = Slot (hashmap_hash_int m k)"
  using assms unfolding hashmap_hash_def chain_Suc by (simp only: hash_probe.simps) auto

lemma hashmap_get_first:
  "in_use (data_m m ! hashmap_hash_int m k) = 1 \<Longrightarrow> key (data_m m ! hashmap_hash_int m k) = k \<Longrightarrow>
   hashmap_get m k = data (data_m m ! hashmap_hash_int m k)"
  unfolding hashmap_get_def chain_Suc by (simp only: get_probe.simps) simp

text \<open>Unrolling the probe loops on a numeral, for evaluation.\<close>

lemma hash_probe_numeral:
  "hash_probe m k cur (numeral n) =
     (if in_use (data_m m ! cur) = 0 then Slot cur
      else if in_use (data_m m ! cur) = 1 \<and> key (data_m m ! cur) = k then Slot cur
      else hash_probe m k ((cur + 1) mod table_size m) (pred_numeral n))"
  by (simp add: numeral_eq_Suc)

lemma get_probe_numeral:
  "get_probe m k cur (numeral n) =
     (if in_use (data_m m ! cur) = 1 \<and> key (data_m m ! cur) = k then data (data_m m ! cur)
      else get_probe m k ((cur + 1) mod table_size m) (pred_numeral n))"
  by (simp add: numeral_eq_Suc)

lemma remove_probe_numeral:
  "remove_probe m k cur (numeral n) =
     (if in_use (data_m m ! cur) = 1 \<and> key (data_m m ! cur) = k
      then (MAP_OK, m\<lparr>data_m := (data_m m)[cur := zero_element], size_m := size_m m - 1\<rparr>)
      else remove_probe m k ((cur + 1) mod table_size m) (pred_numeral n))"
  by (simp add: numeral_eq_Suc)

lemma apply_loop_numeral:
  "apply_loop m f i (numeral n) info =
     (case hashmap_get_index m i of
        None \<Rightarrow> None
      | Some t \<Rightarrow> apply_loop m f (i + 1) (pred_numeral n) (if t \<noteq> NULL then f info t else info))"
  by (simp add: numeral_eq_Suc)

lemmas eval_defs =
  hashmap_hash_def hashmap_hash_int_def mix32_def Let_def MAX_CHAIN_LENGTH_def
  hashmap_get_def hashmap_remove_def NULL_def
  hash_probe_numeral get_probe_numeral remove_probe_numeral

text \<open>Two puts of one key into the fresh table.\<close>

lemma two_puts_fresh:
  fixes h a b :: any_t
  defines "i \<equiv> hashmap_hash_int fresh_table h"
  defines "m1 \<equiv> fresh_table\<lparr>data_m := (data_m fresh_table)[i := \<lparr>key = h, in_use = 1, data = a\<rparr>], size_m := 1\<rparr>"
  defines "m2 \<equiv> fresh_table\<lparr>data_m := (data_m fresh_table)[i := \<lparr>key = h, in_use = 1, data = b\<rparr>], size_m := 2\<rparr>"
  shows "hashmap_put lim fresh_table h a = Some (MAP_OK, m1)"
    and "hashmap_put lim m1 h b = Some (MAP_OK, m2)"
    and "hashmap_get fresh_table h = NULL"
    and "hashmap_get m1 h = a"
    and "hashmap_get m2 h = b"
proof -
  have i: "i < 256"
    unfolding i_def using hashmap_hash_int_less [of fresh_table h] by simp
  have "hashmap_hash fresh_table h = Slot i"
    unfolding i_def using i
    by (intro hashmap_hash_first) (simp_all add: i_def)
  then show "hashmap_put lim fresh_table h a = Some (MAP_OK, m1)"
    by (simp add: hashmap_put_Slot m1_def)
  have hi: "hashmap_hash_int m1 h = i" "hashmap_hash_int m2 h = i"
    by (simp_all add: i_def m1_def m2_def hashmap_hash_int_def)
  have "hashmap_hash m1 h = Slot (hashmap_hash_int m1 h)"
    using i by (intro hashmap_hash_first) (simp_all add: hi, simp_all add: m1_def)
  then show "hashmap_put lim m1 h b = Some (MAP_OK, m2)"
    by (simp add: hashmap_put_Slot hi) (simp add: m1_def m2_def)
  have "hashmap_get m1 h = data (data_m m1 ! hashmap_hash_int m1 h)"
    using i by (intro hashmap_get_first) (simp_all add: hi, simp_all add: m1_def)
  then show "hashmap_get m1 h = a"
    using i by (simp add: hi) (simp add: m1_def)
  have "hashmap_get m2 h = data (data_m m2 ! hashmap_hash_int m2 h)"
    using i by (intro hashmap_get_first) (simp_all add: hi, simp_all add: m2_def)
  then show "hashmap_get m2 h = b"
    using i by (simp add: hi) (simp add: m2_def)
  have "get_probe m h c n = NULL" if "\<forall>e \<in> set (data_m m). in_use e = 0" "0 < table_size m"
      "length (data_m m) = table_size m" "c < table_size m" for m c n
    using that by (induction n arbitrary: c) auto
  from this [of fresh_table i MAX_CHAIN_LENGTH] i
  show "hashmap_get fresh_table h = NULL"
    by (simp add: hashmap_get_def i_def) (simp add: fresh_table_def)
qed

lemma hashmap_put_case:
  "hashmap_put lim m k v =
     (case hashmap_hash m k of
        Slot i \<Rightarrow> Some (MAP_OK, m\<lparr>data_m := (data_m m)[i := \<lparr>key = k, in_use = 1, data = v\<rparr>], size_m := size_m m + 1\<rparr>)
      | MAP_FULL \<Rightarrow> hashmap_put lim m k v)"
  by (cases "hashmap_hash m k") (simp_all add: hashmap_put_Slot)

lemma BRSetAdd_eq:
  "BRSetAdd lim s item =
     (if item = NULL then None
      else case hashmap_put lim (map_s s) (hash s item) item of
             None \<Rightarrow> None
           | Some (st, m') \<Rightarrow> Some (hashmap_get (map_s s) (hash s item), s\<lparr>map_s := m'\<rparr>))"
  by (simp add: BRSetAdd_def Let_def)

lemma BRSetRemove_eq:
  "BRSetRemove s item =
     (if item = NULL then None
      else Some (hashmap_get (map_s s) (hash s item),
                 s\<lparr>map_s := snd (hashmap_remove (map_s s) (hash s item))\<rparr>))"
  by (simp add: BRSetRemove_def Let_def)

lemma hashmap_clear_eq:
  "hashmap_clear m = (MAP_OK, m\<lparr>data_m := (data_m m)[0 := zero_element], size_m := size_m m - 1\<rparr>)"
  unfolding hashmap_clear_def chain_Suc by (simp only: clear_loop.simps element_blanked)

lemma hash_probe_Slot:
  "hash_probe m k cur n = Slot i \<Longrightarrow>
   in_use (data_m m ! i) = 0 \<or> in_use (data_m m ! i) = 1 \<and> key (data_m m ! i) = k"
  by (induction n arbitrary: cur) (auto split: if_splits)

lemma hashmap_hash_Slot:
  assumes "hashmap_hash m k = Slot i"
  shows "size_m m < int (table_size m div 2)"
    and "in_use (data_m m ! i) = 0 \<or> in_use (data_m m ! i) = 1 \<and> key (data_m m ! i) = k"
  using assms hash_probe_Slot [of m k "hashmap_hash_int m k" MAX_CHAIN_LENGTH i]
  by (auto simp: hashmap_hash_def split: if_splits)


lemma remove_probe_missing:
  assumes "\<forall>j<n. \<not> (in_use (data_m m ! probe_pos m k (i + j)) = 1 \<and>
                    key (data_m m ! probe_pos m k (i + j)) = k)"
  shows "remove_probe m k (probe_pos m k i) n = (MAP_MISSING, m)"
  using assms
proof (induction n arbitrary: i)
  case 0
  then show ?case by simp
next
  case (Suc n)
  from Suc.prems have here: "\<not> (in_use (data_m m ! probe_pos m k i) = 1 \<and>
      key (data_m m ! probe_pos m k i) = k)"
    by (metis add.right_neutral zero_less_Suc)
  from Suc.prems have "\<forall>j<n. \<not> (in_use (data_m m ! probe_pos m k (Suc i + j)) = 1 \<and>
      key (data_m m ! probe_pos m k (Suc i + j)) = k)"
    by (metis Suc_less_eq add_Suc_shift)
  then have "remove_probe m k (probe_pos m k (Suc i)) n = (MAP_MISSING, m)"
    by (rule Suc.IH)
  with here show ?case
    by (simp add: probe_pos_Suc del: One_nat_def)
qed

lemma clear_times_length:
  "hashmap_length (Some (clear_times n m)) = hashmap_length (Some m) - int n"
  by (induction n arbitrary: m) (simp_all add: hashmap_clear_eq)

lemma BRSet_two_adds:
  assumes new: "BRSetNew lim h e cap = Some s0" and a: "a \<noteq> NULL" and b: "b \<noteq> NULL"
    and hab: "h a = h b"
  shows "\<exists>s1 s2. BRSetAdd lim s0 a = Some (NULL, s1) \<and> BRSetAdd lim s1 b = Some (a, s2) \<and>
           BRSetCount s1 = 1 \<and> BRSetCount s2 = 2 \<and> BRSetGet s2 a = Some b \<and> BRSetGet s2 b = Some b"
proof -
  from new have s0: "s0 = \<lparr>map_s = fresh_table, hash = h, eq = e\<rparr>"
    by (simp add: BRSetNew_def hashmap_new_eq split: if_splits)
  note tp = two_puts_fresh
  show ?thesis
    using a b hab
    by (simp add: s0 BRSetAdd_def BRSetGet_def BRSetCount_def tp Let_def)
qed

section \<open>Shape of the table, termination of put\<close>

lemma hashmap_put_fuel_FULL:
  "hashmap_hash m k = MAP_FULL \<Longrightarrow>
   hashmap_put_fuel lim fuel m k v =
     (case fuel of
        0 \<Rightarrow> None
      | Suc f \<Rightarrow>
          (case hashmap_rehash_fuel lim f m of
             None \<Rightarrow> None
           | Some (st, m') \<Rightarrow>
               if st = MAP_OMEM then Some (MAP_OMEM, m') else hashmap_put_fuel lim f m' k v))"
  by (simp add: hashmap_put_fuel.simps)

lemma put_shape:
  "hashmap_put_fuel lim fuel m k v = Some (st, m') \<Longrightarrow> table_ok m \<Longrightarrow>
     table_ok m' \<and> table_size m \<le> table_size m' \<and> (st = MAP_OK \<or> st = MAP_OMEM) \<and>
     (st = MAP_OK \<longrightarrow> load_ok m') \<and> (load_ok m \<longrightarrow> load_ok m')"
  "hashmap_rehash_fuel lim f m = Some (st, m') \<Longrightarrow> table_ok m \<Longrightarrow>
     table_ok m' \<and> table_size m \<le> table_size m' \<and> (st = MAP_OK \<or> st = MAP_OMEM) \<and>
     (st = MAP_OK \<longrightarrow> load_ok m' \<and> 2 * table_size m \<le> table_size m') \<and>
     (load_ok m \<longrightarrow> load_ok m')"
  "rehash_loop lim f m es = Some (st, m') \<Longrightarrow> table_ok m \<Longrightarrow>
     table_ok m' \<and> table_size m \<le> table_size m' \<and> (st = MAP_OK \<or> st = MAP_OMEM) \<and>
     (load_ok m \<longrightarrow> load_ok m')"
proof (induction lim fuel m k v and lim f m and lim f m es arbitrary: st m' and st m' and st m'
    rule: hashmap_put_fuel_hashmap_rehash_fuel_rehash_loop.induct)
  case (1 lim fuel m k v)
  show ?case
  proof (cases "hashmap_hash m k")
    case (Slot i)
    from hashmap_hash_Slot(1) [OF Slot] "1.prems" show ?thesis
      by (auto simp: hashmap_put_fuel_Slot [OF Slot] table_ok_def load_ok_def)
  next
    case MAP_FULL
    with "1.prems"(1) obtain f st1 m1 where fuel: "fuel = Suc f"
      and re: "hashmap_rehash_fuel lim f m = Some (st1, m1)"
      and res: "(if st1 = MAP_OMEM then Some (MAP_OMEM, m1) else hashmap_put_fuel lim f m1 k v) = Some (st, m')"
      by (auto simp: hashmap_put_fuel_FULL split: nat.splits option.splits)
    note r = "1.IH"(1) [OF MAP_FULL fuel re "1.prems"(2)]
    show ?thesis
    proof (cases "st1 = MAP_OMEM")
      case True
      with res r show ?thesis by auto
    next
      case False
      with res have "hashmap_put_fuel lim f m1 k v = Some (st, m')" by simp
      from "1.IH"(2) [OF MAP_FULL fuel re refl False this] r show ?thesis by auto
    qed
  qed
next
  case (2 lim f m)
  show ?case
  proof (cases "calloc lim (2 * table_size m)")
    case None
    with "2.prems" show ?thesis
      by (auto simp: hashmap_rehash_fuel.simps)
  next
    case (Some temp)
    let ?m0 = "m\<lparr>data_m := temp, table_size := 2 * table_size m, size_m := 0\<rparr>"
    from Some have temp: "temp = replicate (2 * table_size m) zero_element"
      by (simp add: calloc_def split: if_splits)
    from "2.prems"(2) have ok0: "table_ok ?m0" and l0: "load_ok ?m0"
      by (simp_all add: table_ok_def load_ok_def temp)
    from "2.prems"(1) Some have "rehash_loop lim f ?m0 (take (table_size m) (data_m m)) = Some (st, m')"
      by (simp add: hashmap_rehash_fuel.simps)
    from "2.IH" [OF Some this ok0] l0 show ?thesis by auto
  qed
next
  case (3 lim f m)
  then show ?case by auto
next
  case (4 lim f m e es)
  show ?case
  proof (cases "in_use e = 0")
    case True
    with "4.prems" "4.IH"(1) show ?thesis by simp
  next
    case False
    with "4.prems"(1) obtain st1 m1 where put: "hashmap_put_fuel lim f m (key e) (data e) = Some (st1, m1)"
      and res: "(if st1 \<noteq> MAP_OK then Some (st1, m1) else rehash_loop lim f m1 es) = Some (st, m')"
      by (auto split: option.splits)
    note p = "4.IH"(2) [OF False put "4.prems"(2)]
    show ?thesis
    proof (cases "st1 = MAP_OK")
      case True
      with res have "rehash_loop lim f m1 es = Some (st, m')" by simp
      from "4.IH"(3) [OF False put refl _ this] True p show ?thesis by auto
    next
      case False
      with res p show ?thesis by auto
    qed
  qed
qed

lemma rehash_ok_calloc:
  "hashmap_rehash_fuel lim f m = Some (st, m') \<Longrightarrow> st \<noteq> MAP_OMEM \<Longrightarrow> 2 * table_size m \<le> lim"
  by (auto simp: hashmap_rehash_fuel.simps calloc_def split: option.splits if_splits)

lemma put_fuel_returns:
  "table_ok m \<Longrightarrow> lim + 1 < fuel + table_size m \<Longrightarrow> 0 < fuel \<Longrightarrow>
     \<exists>r. hashmap_put_fuel lim fuel m k v = Some r"
  "table_ok m \<Longrightarrow> lim + 1 < Suc f + table_size m \<Longrightarrow>
     \<exists>r. hashmap_rehash_fuel lim f m = Some r"
  "table_ok m \<Longrightarrow> lim + 1 < f + table_size m \<Longrightarrow> 0 < f \<Longrightarrow>
     \<exists>r. rehash_loop lim f m es = Some r"
proof (induction lim fuel m k v and lim f m and lim f m es
    rule: hashmap_put_fuel_hashmap_rehash_fuel_rehash_loop.induct)
  case (1 lim fuel m k v)
  show ?case
  proof (cases "hashmap_hash m k")
    case (Slot i)
    then show ?thesis by (simp add: hashmap_put_fuel_Slot)
  next
    case MAP_FULL
    from "1.prems"(3) obtain f where fuel: "fuel = Suc f"
      by (cases fuel) auto
    from "1.IH"(1) [OF MAP_FULL fuel "1.prems"(1)] "1.prems"(2) fuel
    obtain st1 m1 where re: "hashmap_rehash_fuel lim f m = Some (st1, m1)"
      by auto
    show ?thesis
    proof (cases "st1 = MAP_OMEM")
      case True
      with MAP_FULL fuel re show ?thesis
        by (simp add: hashmap_put_fuel_FULL)
    next
      case False
      from put_shape(2) [OF re "1.prems"(1)] False
      have m1: "table_ok m1" "2 * table_size m \<le> table_size m1"
        by auto
      from rehash_ok_calloc [OF re False] have "2 * table_size m \<le> lim" .
      with "1.prems"(1,2) fuel m1(2) have "lim + 1 < f + table_size m1" "0 < f"
        by (auto simp: table_ok_def)
      from "1.IH"(2) [OF MAP_FULL fuel re refl False m1(1) this]
      show ?thesis
        using MAP_FULL fuel re False by (simp add: hashmap_put_fuel_FULL)
    qed
  qed
next
  case (2 lim f m)
  show ?case
  proof (cases "calloc lim (2 * table_size m)")
    case None
    then show ?thesis by (simp add: hashmap_rehash_fuel.simps)
  next
    case (Some temp)
    let ?m0 = "m\<lparr>data_m := temp, table_size := 2 * table_size m, size_m := 0\<rparr>"
    from Some have temp: "temp = replicate (2 * table_size m) zero_element"
      and le: "2 * table_size m \<le> lim"
      by (simp_all add: calloc_def split: if_splits)
    from "2.prems"(1) have ok0: "table_ok ?m0"
      by (simp add: table_ok_def temp)
    from "2.prems" le have "lim + 1 < f + table_size ?m0" "0 < f"
      by (auto simp: table_ok_def)
    from "2.IH" [OF Some ok0 this] Some show ?thesis
      by (simp add: hashmap_rehash_fuel.simps)
  qed
next
  case (3 lim f m)
  then show ?case by simp
next
  case (4 lim f m e es)
  show ?case
  proof (cases "in_use e = 0")
    case True
    with "4.IH"(1) "4.prems" show ?thesis by simp
  next
    case False
    from "4.IH"(2) [OF False "4.prems"] obtain st1 m1
      where put: "hashmap_put_fuel lim f m (key e) (data e) = Some (st1, m1)"
      by auto
    show ?thesis
    proof (cases "st1 = MAP_OK")
      case True
      from put_shape(1) [OF put "4.prems"(1)] have "table_ok m1" "table_size m \<le> table_size m1"
        by auto
      with "4.prems"(2) have "table_ok m1" "lim + 1 < f + table_size m1"
        by auto
      from "4.IH"(3) [OF False put refl _ this "4.prems"(3)] True
      show ?thesis
        using False put by simp
    next
      case False
      with \<open>in_use e \<noteq> 0\<close> put show ?thesis by simp
    qed
  qed
qed

lemma hashmap_put_returns:
  assumes "table_ok m"
  shows "\<exists>st m'. hashmap_put lim m k v = Some (st, m') \<and> (st = MAP_OK \<or> st = MAP_OMEM)"
proof -
  from assms have "lim + 1 < Suc lim + table_size m"
    by (simp add: table_ok_def)
  from put_fuel_returns(1) [OF assms this, where k = k and v = v] obtain st m'
    where r: "hashmap_put_fuel lim (Suc lim) m k v = Some (st, m')"
    by auto
  from put_shape(1) [OF r assms] r show ?thesis
    by (auto simp: hashmap_put_def)
qed

text \<open>More fuel does not change a result, so the result of a put is that of the C
  function whenever the table is well formed.\<close>

lemma put_fuel_mono:
  "hashmap_put_fuel lim fuel m k v = Some r \<Longrightarrow> fuel \<le> fuel' \<Longrightarrow>
     hashmap_put_fuel lim fuel' m k v = Some r"
  "hashmap_rehash_fuel lim f m = Some r \<Longrightarrow> f \<le> f' \<Longrightarrow>
     hashmap_rehash_fuel lim f' m = Some r"
  "rehash_loop lim f m es = Some r \<Longrightarrow> f \<le> f' \<Longrightarrow> rehash_loop lim f' m es = Some r"
proof (induction lim fuel m k v and lim f m and lim f m es
    arbitrary: r fuel' and r f' and r f'
    rule: hashmap_put_fuel_hashmap_rehash_fuel_rehash_loop.induct)
  case (1 lim fuel m k v)
  show ?case
  proof (cases "hashmap_hash m k")
    case (Slot i)
    with "1.prems"(1) show ?thesis
      by (simp add: hashmap_put_fuel_Slot)
  next
    case MAP_FULL
    with "1.prems"(1) obtain f st1 m1 where fuel: "fuel = Suc f"
      and re: "hashmap_rehash_fuel lim f m = Some (st1, m1)"
      and res: "(if st1 = MAP_OMEM then Some (MAP_OMEM, m1) else hashmap_put_fuel lim f m1 k v) =
          Some r"
      by (auto simp: hashmap_put_fuel_FULL split: nat.splits option.splits)
    from "1.prems"(2) fuel obtain g where fuel': "fuel' = Suc g" and fg: "f \<le> g"
      by (cases fuel') auto
    from "1.IH"(1) [OF MAP_FULL fuel re fg]
    have re': "hashmap_rehash_fuel lim g m = Some (st1, m1)" .
    have unf: "hashmap_put_fuel lim fuel' m k v =
        (if st1 = MAP_OMEM then Some (MAP_OMEM, m1) else hashmap_put_fuel lim g m1 k v)"
      by (simp add: fuel' hashmap_put_fuel_FULL [OF MAP_FULL] re')
    show ?thesis
    proof (cases "st1 = MAP_OMEM")
      case True
      with res show ?thesis
        unfolding unf by simp
    next
      case False
      with res have "hashmap_put_fuel lim f m1 k v = Some r" by simp
      from "1.IH"(2) [OF MAP_FULL fuel re refl False this fg] False
      show ?thesis
        unfolding unf by simp
    qed
  qed
next
  case (2 lim f m)
  show ?case
  proof (cases "calloc lim (2 * table_size m)")
    case None
    with "2.prems"(1) show ?thesis
      by (simp add: hashmap_rehash_fuel.simps)
  next
    case (Some temp)
    with "2.prems"(1) have "rehash_loop lim f
        (m\<lparr>data_m := temp, table_size := 2 * table_size m, size_m := 0\<rparr>)
        (take (table_size m) (data_m m)) = Some r"
      by (simp add: hashmap_rehash_fuel.simps)
    from "2.IH" [OF Some this "2.prems"(2)] Some show ?thesis
      by (simp add: hashmap_rehash_fuel.simps)
  qed
next
  case (3 lim f m)
  then show ?case by simp
next
  case (4 lim f m e es)
  show ?case
  proof (cases "in_use e = 0")
    case True
    with "4.prems"(1) have "rehash_loop lim f m es = Some r" by simp
    from "4.IH"(1) [OF True this "4.prems"(2)] True show ?thesis by simp
  next
    case False
    with "4.prems"(1) obtain st1 m1 where put: "hashmap_put_fuel lim f m (key e) (data e) = Some (st1, m1)"
      and res: "(if st1 \<noteq> MAP_OK then Some (st1, m1) else rehash_loop lim f m1 es) = Some r"
      by (auto split: option.splits)
    from "4.IH"(2) [OF False put "4.prems"(2)]
    have put': "hashmap_put_fuel lim f' m (key e) (data e) = Some (st1, m1)" .
    have unf: "rehash_loop lim f' m (e # es) =
        (if st1 \<noteq> MAP_OK then Some (st1, m1) else rehash_loop lim f' m1 es)"
      using False put' by simp
    show ?thesis
    proof (cases "st1 = MAP_OK")
      case True
      with res have "rehash_loop lim f m1 es = Some r" by simp
      from "4.IH"(3) [OF False put refl _ this "4.prems"(2)] True
      show ?thesis
        unfolding unf by simp
    next
      case ne: False
      with res show ?thesis
        unfolding unf by simp
    qed
  qed
qed

lemma hashmap_put_fuel_enough:
  assumes "table_ok m" and "Suc lim \<le> fuel"
  shows "hashmap_put_fuel lim fuel m k v = hashmap_put lim m k v"
proof -
  from hashmap_put_returns [OF assms(1), of lim k v] obtain r
    where r: "hashmap_put lim m k v = Some r"
    by blast
  from put_fuel_mono(1) [OF r [unfolded hashmap_put_def] assms(2)] r show ?thesis
    by simp
qed

lemma remove_probe_shape:
  "remove_probe m k cur n = (st, m') \<Longrightarrow>
   table_size m' = table_size m \<and> length (data_m m') = length (data_m m) \<and> size_m m' \<le> size_m m"
  by (induction n arbitrary: cur) (auto split: if_splits)

lemma fresh_table_ok: "table_ok fresh_table" "load_ok fresh_table"
  by (simp_all add: table_ok_def load_ok_def)

lemma load_ok_twice: "load_ok m \<Longrightarrow> 2 * size_m m \<le> int (table_size m)"
  unfolding load_ok_def by linarith

lemma reachable_shape:
  assumes "reachable lim m"
  shows "table_ok m \<and> load_ok m"
  using assms
proof (induction rule: reachable.induct)
  case (reach_new m)
  then show ?case
    by (auto simp: hashmap_new_eq fresh_table_ok split: if_splits)
next
  case (reach_put m k v st m')
  from put_shape(1) [OF reach_put.hyps(2) [unfolded hashmap_put_def]] reach_put.IH
  show ?case by simp
next
  case (reach_remove m k st m')
  from remove_probe_shape [OF reach_remove.hyps(2) [unfolded hashmap_remove_def]] reach_remove.IH
  show ?case by (auto simp: table_ok_def load_ok_def)
next
  case (reach_clear m st m')
  with reach_clear.IH show ?case
    by (auto simp: hashmap_clear_eq table_ok_def load_ok_def)
qed

section \<open>Probing\<close>

lemma probe_pos_less: "0 < table_size m \<Longrightarrow> probe_pos m k j < table_size m"
  by (simp add: probe_pos_def)

lemma probe_pos_cong: "table_size m' = table_size m \<Longrightarrow> probe_pos m' k j = probe_pos m k j"
  by (simp add: probe_pos_def hashmap_hash_int_def)

lemma hash_probe_char:
  "hash_probe m k (probe_pos m k s) n = Slot i \<Longrightarrow>
   \<exists>j<n. i = probe_pos m k (s + j) \<and>
     (in_use (data_m m ! i) = 0 \<or> in_use (data_m m ! i) = 1 \<and> key (data_m m ! i) = k) \<and>
     (\<forall>j'<j. in_use (data_m m ! probe_pos m k (s + j')) \<noteq> 0)"
proof (induction n arbitrary: s)
  case 0
  then show ?case by simp
next
  case (Suc n)
  let ?p = "probe_pos m k s"
  show ?case
  proof (cases "in_use (data_m m ! ?p) = 0 \<or> in_use (data_m m ! ?p) = 1 \<and> key (data_m m ! ?p) = k")
    case True
    with Suc.prems have "i = ?p" by auto
    with True show ?thesis by (intro exI [of _ 0]) simp
  next
    case False
    with Suc.prems have "hash_probe m k (probe_pos m k (Suc s)) n = Slot i"
      by (auto simp: probe_pos_Suc simp del: One_nat_def split: if_splits)
    from Suc.IH [OF this] obtain j where j: "j < n" "i = probe_pos m k (Suc s + j)"
      "in_use (data_m m ! i) = 0 \<or> in_use (data_m m ! i) = 1 \<and> key (data_m m ! i) = k"
      "\<forall>j'<j. in_use (data_m m ! probe_pos m k (Suc s + j')) \<noteq> 0"
      by blast
    have "\<forall>j'<Suc j. in_use (data_m m ! probe_pos m k (s + j')) \<noteq> 0"
    proof (intro allI impI)
      fix j' assume "j' < Suc j"
      show "in_use (data_m m ! probe_pos m k (s + j')) \<noteq> 0"
      proof (cases j')
        case 0
        with False show ?thesis by simp
      next
        case (Suc j'')
        with \<open>j' < Suc j\<close> j(4) show ?thesis by simp
      qed
    qed
    with j show ?thesis by (intro exI [of _ "Suc j"]) simp
  qed
qed

lemma hashmap_hash_char:
  assumes "hashmap_hash m k = Slot i"
  shows "\<exists>j<MAX_CHAIN_LENGTH. i = probe_pos m k j \<and>
     (in_use (data_m m ! i) = 0 \<or> in_use (data_m m ! i) = 1 \<and> key (data_m m ! i) = k) \<and>
     (\<forall>j'<j. in_use (data_m m ! probe_pos m k j') \<noteq> 0)"
proof -
  from assms have "hash_probe m k (probe_pos m k 0) MAX_CHAIN_LENGTH = Slot i"
    by (simp add: hashmap_hash_def probe_pos_0 split: if_splits)
  from hash_probe_char [OF this] show ?thesis by simp
qed

lemma get_probe_missing:
  "\<forall>j<n. \<not> (in_use (data_m m ! probe_pos m k (s + j)) = 1 \<and>
             key (data_m m ! probe_pos m k (s + j)) = k) \<Longrightarrow>
   get_probe m k (probe_pos m k s) n = NULL"
proof (induction n arbitrary: s)
  case 0
  then show ?case by simp
next
  case (Suc n)
  from Suc.prems have here: "\<not> (in_use (data_m m ! probe_pos m k s) = 1 \<and>
      key (data_m m ! probe_pos m k s) = k)"
    by (metis add.right_neutral zero_less_Suc)
  from Suc.prems have "\<forall>j<n. \<not> (in_use (data_m m ! probe_pos m k (Suc s + j)) = 1 \<and>
      key (data_m m ! probe_pos m k (Suc s + j)) = k)"
    by (metis Suc_less_eq add_Suc_shift)
  then have "get_probe m k (probe_pos m k (Suc s)) n = NULL"
    by (rule Suc.IH)
  with here show ?case
    by (auto simp: probe_pos_Suc simp del: One_nat_def)
qed

lemma get_probe_found:
  "j < n \<Longrightarrow> in_use (data_m m ! probe_pos m k (s + j)) = 1 \<Longrightarrow>
   key (data_m m ! probe_pos m k (s + j)) = k \<Longrightarrow>
   \<exists>j0\<le>j. in_use (data_m m ! probe_pos m k (s + j0)) = 1 \<and>
      key (data_m m ! probe_pos m k (s + j0)) = k \<and>
      get_probe m k (probe_pos m k s) n = data (data_m m ! probe_pos m k (s + j0))"
proof (induction n arbitrary: s j)
  case 0
  then show ?case by simp
next
  case (Suc n)
  let ?p = "probe_pos m k s"
  show ?case
  proof (cases "in_use (data_m m ! ?p) = 1 \<and> key (data_m m ! ?p) = k")
    case True
    then show ?thesis by (intro exI [of _ 0]) simp
  next
    case False
    with Suc.prems obtain j1 where j1: "j = Suc j1"
      by (cases j) auto
    with Suc.prems have "j1 < n" "in_use (data_m m ! probe_pos m k (Suc s + j1)) = 1"
      "key (data_m m ! probe_pos m k (Suc s + j1)) = k"
      by simp_all
    from Suc.IH [OF this] obtain j0 where j0: "j0 \<le> j1"
      "in_use (data_m m ! probe_pos m k (Suc s + j0)) = 1"
      "key (data_m m ! probe_pos m k (Suc s + j0)) = k"
      "get_probe m k (probe_pos m k (Suc s)) n = data (data_m m ! probe_pos m k (Suc s + j0))"
      by blast
    from False j0(4) have "get_probe m k ?p (Suc n) = data (data_m m ! probe_pos m k (s + Suc j0))"
      by (auto simp: probe_pos_Suc simp del: One_nat_def)
    with j0 j1 show ?thesis by (intro exI [of _ "Suc j0"]) simp
  qed
qed

lemma entriesI:
  "i < length (data_m m) \<Longrightarrow> in_use (data_m m ! i) \<noteq> 0 \<Longrightarrow>
   (key (data_m m ! i), data (data_m m ! i)) \<in> entries m"
  unfolding entries_def by blast

lemma entriesE:
  assumes "(k, v) \<in> entries m"
  obtains i where "i < length (data_m m)" "in_use (data_m m ! i) \<noteq> 0"
    "key (data_m m ! i) = k" "data (data_m m ! i) = v"
  using assms unfolding entries_def by blast

lemma hashmap_get_stored:
  assumes inv: "chain_ok m" and kv: "(k, v) \<in> entries m"
  shows "hashmap_get m k = v"
proof -
  from inv have ok: "length (data_m m) = table_size m" "0 < table_size m"
    by (simp_all add: chain_ok_def table_ok_def)
  from kv obtain i where i: "i < table_size m" "in_use (data_m m ! i) \<noteq> 0"
    "key (data_m m ! i) = k" "data (data_m m ! i) = v"
    using ok by (auto elim: entriesE)
  from inv i(1,2) have u: "in_use (data_m m ! i) = 1"
    and "\<exists>j<MAX_CHAIN_LENGTH. probe_pos m (key (data_m m ! i)) j = i"
    unfolding chain_ok_def by blast+
  then obtain j where j: "j < MAX_CHAIN_LENGTH" "probe_pos m k j = i"
    using i(3) by auto
  from get_probe_found [of j MAX_CHAIN_LENGTH m k 0] j u i(3)
  obtain j0 where j0: "in_use (data_m m ! probe_pos m k j0) = 1"
    "key (data_m m ! probe_pos m k j0) = k"
    "hashmap_get m k = data (data_m m ! probe_pos m k j0)"
    by (auto simp: hashmap_get_def probe_pos_0)
  have "probe_pos m k j0 < table_size m"
    using ok by (simp add: probe_pos_less)
  with inv j0(1,2) i(1,2,3) have "probe_pos m k j0 = i"
    unfolding chain_ok_def by (metis zero_neq_one)
  with j0(3) i(4) show ?thesis by simp
qed

lemma hashmap_get_not_stored:
  assumes ok: "table_ok m" and k: "k \<notin> fst ` entries m"
  shows "hashmap_get m k = NULL"
proof -
  have "\<not> (in_use (data_m m ! probe_pos m k (0 + j)) = 1 \<and>
      key (data_m m ! probe_pos m k (0 + j)) = k)" for j
  proof
    assume hit: "in_use (data_m m ! probe_pos m k (0 + j)) = 1 \<and>
      key (data_m m ! probe_pos m k (0 + j)) = k"
    have "probe_pos m k j < length (data_m m)"
      using ok by (simp add: table_ok_def probe_pos_less)
    from entriesI [OF this] hit have "(k, data (data_m m ! probe_pos m k j)) \<in> entries m"
      by auto
    with k show False by force
  qed
  then have "get_probe m k (probe_pos m k 0) MAX_CHAIN_LENGTH = NULL"
    by (intro get_probe_missing) blast
  then show ?thesis by (simp add: hashmap_get_def probe_pos_0)
qed

section \<open>Puts of new keys, rehashing\<close>

lemma filter_length_update_new:
  "i < length xs \<Longrightarrow> \<not> P (xs ! i) \<Longrightarrow> P x \<Longrightarrow>
   length (filter P (xs[i := x])) = Suc (length (filter P xs))"
proof (induction xs arbitrary: i)
  case Nil
  then show ?case by simp
next
  case (Cons y ys)
  then show ?case by (cases i) auto
qed

lemma entries_empty: "\<forall>e\<in>set (data_m m). in_use e = 0 \<Longrightarrow> entries m = {}"
  unfolding entries_def by auto

lemma chain_ok_empty:
  "table_ok m \<Longrightarrow> \<forall>e\<in>set (data_m m). in_use e = 0 \<Longrightarrow> chain_ok m"
  unfolding chain_ok_def table_ok_def by auto

lemma occupied_empty: "\<forall>e\<in>set (data_m m). in_use e = 0 \<Longrightarrow> occupied m = 0"
  unfolding occupied_def by (induction "data_m m") auto

lemma put_Slot_fresh:
  fixes v :: any_t
  assumes inv: "chain_ok m" and h: "hashmap_hash m k = Slot i" and fresh: "k \<notin> fst ` entries m"
  defines "m' \<equiv> m\<lparr>data_m := (data_m m)[i := \<lparr>key = k, in_use = 1, data = v\<rparr>],
                    size_m := size_m m + 1\<rparr>"
  shows "chain_ok m'" and "entries m' = insert (k, v) (entries m)"
    and "occupied m' = Suc (occupied m)"
proof -
  let ?d = "data_m m" and ?N = "table_size m"
  from inv have ok: "length ?d = ?N" "0 < ?N"
    by (simp_all add: chain_ok_def table_ok_def)
  from hashmap_hash_char [OF h] obtain j where j: "j < MAX_CHAIN_LENGTH" "i = probe_pos m k j"
    "in_use (?d ! i) = 0 \<or> in_use (?d ! i) = 1 \<and> key (?d ! i) = k"
    "\<forall>j'<j. in_use (?d ! probe_pos m k j') \<noteq> 0"
    by blast
  from j(2) ok have i: "i < ?N" "i < length ?d"
    by (simp_all add: probe_pos_less)
  have empty: "in_use (?d ! i) = 0"
  proof (rule ccontr)
    assume "in_use (?d ! i) \<noteq> 0"
    with j(3) have "in_use (?d ! i) \<noteq> 0" "key (?d ! i) = k" by auto
    with entriesI [OF i(2)] have "(k, data (?d ! i)) \<in> entries m" by auto
    with fresh show False by force
  qed
  have d': "data_m m' = ?d[i := \<lparr>key = k, in_use = 1, data = v\<rparr>]" "table_size m' = ?N"
    by (simp_all add: m'_def)
  have nth': "data_m m' ! x = (if x = i then \<lparr>key = k, in_use = 1, data = v\<rparr> else ?d ! x)"
    if "x < ?N" for x
    using that i ok by (simp add: d' nth_list_update)
  have pp: "probe_pos m' k' x = probe_pos m k' x" for k' x
    by (rule probe_pos_cong) (simp add: d')
  have used: "in_use (data_m m' ! x) \<noteq> 0" if "x < ?N" "in_use (?d ! x) \<noteq> 0" for x
    using that by (simp add: nth')
  show "chain_ok m'"
    unfolding chain_ok_def
  proof (intro conjI allI impI)
    show "table_ok m'"
      using ok by (simp add: table_ok_def d')
  next
    fix x assume x: "x < table_size m'" "in_use (data_m m' ! x) \<noteq> 0"
    then show "in_use (data_m m' ! x) = 1"
      using inv by (auto simp: d'(2) nth' chain_ok_def split: if_splits)
  next
    fix x assume x: "x < table_size m'" "in_use (data_m m' ! x) \<noteq> 0"
    show "\<exists>j<MAX_CHAIN_LENGTH. probe_pos m' (key (data_m m' ! x)) j = x \<and>
        (\<forall>j'<j. in_use (data_m m' ! probe_pos m' (key (data_m m' ! x)) j') \<noteq> 0)"
    proof (cases "x = i")
      case True
      have "in_use (data_m m' ! probe_pos m k j') \<noteq> 0" if "j' < j" for j'
        using used [of "probe_pos m k j'"] j(4) that ok by (simp add: probe_pos_less)
      then have "\<forall>j'<j. in_use (data_m m' ! probe_pos m k j') \<noteq> 0"
        by blast
      with j(1,2) True x(1) show ?thesis
        by (intro exI [of _ j]) (simp add: pp nth' d'(2))
    next
      case False
      with x have xu: "x < ?N" "in_use (?d ! x) \<noteq> 0" and same: "data_m m' ! x = ?d ! x"
        by (simp_all add: nth' d'(2))
      with inv obtain j1 where j1: "j1 < MAX_CHAIN_LENGTH" "probe_pos m (key (?d ! x)) j1 = x"
        "\<forall>j'<j1. in_use (?d ! probe_pos m (key (?d ! x)) j') \<noteq> 0"
        unfolding chain_ok_def by blast
      have "in_use (data_m m' ! probe_pos m (key (?d ! x)) j') \<noteq> 0" if "j' < j1" for j'
        using used [of "probe_pos m (key (?d ! x)) j'"] j1(3) that ok by (simp add: probe_pos_less)
      then have "\<forall>j'<j1. in_use (data_m m' ! probe_pos m (key (?d ! x)) j') \<noteq> 0"
        by blast
      with j1(1,2) show ?thesis
        by (intro exI [of _ j1]) (simp add: pp same)
    qed
  next
    fix x y
    assume xy: "x < table_size m'" "y < table_size m'"
      "in_use (data_m m' ! x) \<noteq> 0 \<and> in_use (data_m m' ! y) \<noteq> 0 \<and>
       key (data_m m' ! x) = key (data_m m' ! y)"
    have no_k: "key (?d ! z) \<noteq> k" if "z < ?N" "in_use (?d ! z) \<noteq> 0" for z
    proof
      assume "key (?d ! z) = k"
      with entriesI [of z m] that ok have "(k, data (?d ! z)) \<in> entries m" by auto
      with fresh show False by force
    qed
    show "x = y"
    proof (cases "x = i \<or> y = i")
      case True
      with xy no_k show ?thesis
        by (auto simp: nth' d'(2) split: if_splits)
    next
      case False
      with xy inv show ?thesis
        unfolding chain_ok_def by (simp add: nth' d'(2))
    qed
  qed
  show "entries m' = insert (k, v) (entries m)"
  proof (intro equalityI subsetI)
    fix p assume "p \<in> entries m'"
    then obtain x where x: "x < length (data_m m')" "in_use (data_m m' ! x) \<noteq> 0"
      "p = (key (data_m m' ! x), data (data_m m' ! x))"
      unfolding entries_def by blast
    then have xN: "x < ?N" using ok by (simp add: d')
    show "p \<in> insert (k, v) (entries m)"
    proof (cases "x = i")
      case True
      with x xN show ?thesis by (simp add: nth')
    next
      case False
      with x xN have "in_use (?d ! x) \<noteq> 0" "p = (key (?d ! x), data (?d ! x))"
        by (simp_all add: nth')
      with entriesI [of x m] xN ok show ?thesis by simp
    qed
  next
    fix p assume "p \<in> insert (k, v) (entries m)"
    then consider "p = (k, v)" | "p \<in> entries m" by blast
    then show "p \<in> entries m'"
    proof cases
      case 1
      have "i < length (data_m m')" "in_use (data_m m' ! i) \<noteq> 0"
        using i ok by (simp_all add: d')
      from entriesI [OF this] 1 i show ?thesis by (simp add: nth')
    next
      case 2
      then obtain x where x: "x < length ?d" "in_use (?d ! x) \<noteq> 0"
        "p = (key (?d ! x), data (?d ! x))"
        unfolding entries_def by blast
      with empty have "x \<noteq> i" by auto
      with x ok have "x < length (data_m m')" "in_use (data_m m' ! x) \<noteq> 0"
        "p = (key (data_m m' ! x), data (data_m m' ! x))"
        by (simp_all add: d' )
      then show ?thesis unfolding entries_def by blast
    qed
  qed
  show "occupied m' = Suc (occupied m)"
    unfolding occupied_def d' using i(2) empty
    by (intro filter_length_update_new) simp_all
qed

lemma distinct_map_filterI:
  assumes "\<And>i j. i < length xs \<Longrightarrow> j < length xs \<Longrightarrow> P (xs ! i) \<Longrightarrow> P (xs ! j) \<Longrightarrow>
             f (xs ! i) = f (xs ! j) \<Longrightarrow> i = j"
  shows "distinct (map f (filter P xs))"
  using assms
proof (induction xs)
  case Nil
  then show ?case by simp
next
  case (Cons x xs)
  have "distinct (map f (filter P xs))"
  proof (rule Cons.IH)
    fix i j assume "i < length xs" "j < length xs" "P (xs ! i)" "P (xs ! j)" "f (xs ! i) = f (xs ! j)"
    with Cons.prems [of "Suc i" "Suc j"] show "i = j" by simp
  qed
  moreover have "f x \<notin> f ` {y \<in> set xs. P y}" if "P x"
  proof
    assume "f x \<in> f ` {y \<in> set xs. P y}"
    then obtain y where y: "y \<in> set xs" "P y" "f x = f y" by blast
    then obtain j where "j < length xs" "xs ! j = y" by (auto simp: in_set_conv_nth)
    with Cons.prems [of 0 "Suc j"] y that show False by simp
  qed
  ultimately show ?case by auto
qed

lemma chain_ok_distinct_keys:
  assumes "chain_ok m"
  shows "distinct (map key (filter (\<lambda>e. in_use e \<noteq> 0) (data_m m)))"
proof (rule distinct_map_filterI)
  fix i j assume "i < length (data_m m)" "j < length (data_m m)"
    "in_use (data_m m ! i) \<noteq> 0" "in_use (data_m m ! j) \<noteq> 0"
    "key (data_m m ! i) = key (data_m m ! j)"
  with assms show "i = j"
    unfolding chain_ok_def table_ok_def by simp
qed

lemma entries_set: "entries m = {(key e, data e) | e. e \<in> set (data_m m) \<and> in_use e \<noteq> 0}"
  unfolding entries_def by (auto simp: in_set_conv_nth)

lemma put_fresh_sem:
  "hashmap_put_fuel lim fuel m k v = Some (MAP_OK, m') \<Longrightarrow> chain_ok m \<Longrightarrow> count_ok m \<Longrightarrow>
     k \<notin> fst ` entries m \<Longrightarrow>
     chain_ok m' \<and> count_ok m' \<and> entries m' = insert (k, v) (entries m)"
  "hashmap_rehash_fuel lim f m = Some (MAP_OK, m') \<Longrightarrow> chain_ok m \<Longrightarrow>
     chain_ok m' \<and> count_ok m' \<and> entries m' = entries m"
  "rehash_loop lim f m es = Some (MAP_OK, m') \<Longrightarrow> chain_ok m \<Longrightarrow> count_ok m \<Longrightarrow>
     distinct (map key (filter (\<lambda>e. in_use e \<noteq> 0) es)) \<Longrightarrow>
     (\<forall>e\<in>set es. in_use e \<noteq> 0 \<longrightarrow> key e \<notin> fst ` entries m) \<Longrightarrow>
     chain_ok m' \<and> count_ok m' \<and>
     entries m' = entries m \<union> {(key e, data e) | e. e \<in> set es \<and> in_use e \<noteq> 0}"
proof (induction lim fuel m k v and lim f m and lim f m es arbitrary: m' and m' and m'
    rule: hashmap_put_fuel_hashmap_rehash_fuel_rehash_loop.induct)
  case (1 lim fuel m k v)
  show ?case
  proof (cases "hashmap_hash m k")
    case (Slot i)
    with "1.prems"(1) have m': "m' = m\<lparr>data_m := (data_m m)[i := \<lparr>key = k, in_use = 1, data = v\<rparr>],
        size_m := size_m m + 1\<rparr>"
      by (simp add: hashmap_put_fuel_Slot)
    from put_Slot_fresh [OF "1.prems"(2) Slot "1.prems"(4), of v] "1.prems"(3)
    show ?thesis
      unfolding m' by (simp add: count_ok_def)
  next
    case MAP_FULL
    with "1.prems"(1) obtain f st1 m1 where fuel: "fuel = Suc f"
      and re: "hashmap_rehash_fuel lim f m = Some (st1, m1)"
      and res: "(if st1 = MAP_OMEM then Some (MAP_OMEM, m1) else hashmap_put_fuel lim f m1 k v) =
          Some (MAP_OK, m')"
      by (auto simp: hashmap_put_fuel_FULL split: nat.splits option.splits)
    from res have ne: "st1 \<noteq> MAP_OMEM" and put: "hashmap_put_fuel lim f m1 k v = Some (MAP_OK, m')"
      by (auto split: if_splits)
    from put_shape(2) [OF re] "1.prems"(2) ne have st1: "st1 = MAP_OK"
      by (auto simp: chain_ok_def)
    from "1.IH"(1) [OF MAP_FULL fuel re [unfolded st1] "1.prems"(2)]
    have m1: "chain_ok m1" "count_ok m1" "entries m1 = entries m"
      by simp_all
    from "1.IH"(2) [OF MAP_FULL fuel re refl ne put m1(1,2)] "1.prems"(4) m1(3)
    show ?thesis by simp
  qed
next
  case (2 lim f m)
  from "2.prems"(1) obtain temp where c: "calloc lim (2 * table_size m) = Some temp"
    by (auto simp: hashmap_rehash_fuel.simps split: option.splits)
  let ?m0 = "m\<lparr>data_m := temp, table_size := 2 * table_size m, size_m := 0\<rparr>"
  from c have temp: "temp = replicate (2 * table_size m) zero_element"
    by (simp add: calloc_def split: if_splits)
  from "2.prems"(2) have ok: "length (data_m m) = table_size m" "0 < table_size m"
    by (simp_all add: chain_ok_def table_ok_def)
  have z: "\<forall>e\<in>set (data_m ?m0). in_use e = 0"
    by (simp add: temp)
  have "table_ok ?m0"
    using ok by (simp add: table_ok_def temp)
  then have inv0: "chain_ok ?m0"
    using z by (rule chain_ok_empty)
  have cnt0: "count_ok ?m0"
    using occupied_empty [OF z] by (simp add: count_ok_def)
  have e0: "entries ?m0 = {}"
    using z by (rule entries_empty)
  from "2.prems"(1) c have loop: "rehash_loop lim f ?m0 (data_m m) = Some (MAP_OK, m')"
    by (simp add: hashmap_rehash_fuel.simps ok)
  have tk: "take (table_size m) (data_m m) = data_m m"
    using ok by simp
  from "2.IH" [OF c, unfolded tk, OF loop inv0 cnt0 chain_ok_distinct_keys [OF "2.prems"(2)]] e0
  show ?case
    by (simp add: entries_set [of m])
next
  case (3 lim f m)
  then show ?case by simp
next
  case (4 lim f m e es)
  show ?case
  proof (cases "in_use e = 0")
    case True
    with "4.prems" have "rehash_loop lim f m es = Some (MAP_OK, m')"
      "distinct (map key (filter (\<lambda>e. in_use e \<noteq> 0) es))"
      "\<forall>e\<in>set es. in_use e \<noteq> 0 \<longrightarrow> key e \<notin> fst ` entries m"
      by simp_all
    from "4.IH"(1) [OF True this(1) "4.prems"(2,3) this(2,3)] True
    show ?thesis by auto
  next
    case False
    with "4.prems"(1) obtain st1 m1 where put: "hashmap_put_fuel lim f m (key e) (data e) = Some (st1, m1)"
      and res: "(if st1 \<noteq> MAP_OK then Some (st1, m1) else rehash_loop lim f m1 es) = Some (MAP_OK, m')"
      by (auto split: option.splits)
    from res have st1: "st1 = MAP_OK" and loop: "rehash_loop lim f m1 es = Some (MAP_OK, m')"
      by (auto split: if_splits)
    from "4.prems"(5) False have fresh: "key e \<notin> fst ` entries m"
      by simp
    from "4.IH"(2) [OF False put [unfolded st1] "4.prems"(2,3) fresh]
    have m1: "chain_ok m1" "count_ok m1" "entries m1 = insert (key e, data e) (entries m)"
      by simp_all
    from "4.prems"(4) False have d: "distinct (map key (filter (\<lambda>e. in_use e \<noteq> 0) es))"
      and ne: "key e \<notin> key ` {x \<in> set es. in_use x \<noteq> 0}"
      by auto
    have fr: "\<forall>x\<in>set es. in_use x \<noteq> 0 \<longrightarrow> key x \<notin> fst ` entries m1"
    proof (intro ballI impI)
      fix x assume x: "x \<in> set es" "in_use x \<noteq> 0"
      then have "key x \<in> key ` {x \<in> set es. in_use x \<noteq> 0}" by blast
      with ne have "key x \<noteq> key e" by metis
      moreover from "4.prems"(5) x have "key x \<notin> fst ` entries m" by simp
      ultimately show "key x \<notin> fst ` entries m1" by (simp add: m1(3))
    qed
    have "\<not> st1 \<noteq> MAP_OK" using st1 by simp
    from "4.IH"(3) [OF False put refl this loop m1(1,2) d fr] m1(3) False
    show ?thesis by auto
  qed
qed

lemma occupied_card:
  assumes "chain_ok m"
  shows "occupied m = card (entries m)"
proof -
  let ?d = "data_m m"
  let ?U = "{i. i < length ?d \<and> in_use (?d ! i) \<noteq> 0}"
  have e: "entries m = (\<lambda>i. (key (?d ! i), data (?d ! i))) ` ?U"
    unfolding entries_def by blast
  have "inj_on (\<lambda>i. (key (?d ! i), data (?d ! i))) ?U"
  proof (rule inj_onI)
    fix x y assume "x \<in> ?U" "y \<in> ?U" "(key (?d ! x), data (?d ! x)) = (key (?d ! y), data (?d ! y))"
    with assms show "x = y"
      unfolding chain_ok_def table_ok_def by simp
  qed
  then have "card (entries m) = card ?U"
    unfolding e by (rule card_image)
  also have "\<dots> = occupied m"
    unfolding occupied_def by (simp add: length_filter_conv_card)
  finally show ?thesis by simp
qed

lemma fresh_table_inv: "chain_ok fresh_table" "count_ok fresh_table" "entries fresh_table = {}"
proof -
  have z: "\<forall>e\<in>set (data_m fresh_table). in_use e = 0"
    by (simp add: fresh_table_def)
  show "chain_ok fresh_table"
    using fresh_table_ok(1) z by (rule chain_ok_empty)
  show "count_ok fresh_table"
    using occupied_empty [OF z] by (simp add: count_ok_def)
  show "entries fresh_table = {}"
    using z by (rule entries_empty)
qed

lemma hashmap_put_new_key:
  assumes "hashmap_put lim m k v = Some (MAP_OK, m')" and "chain_ok m" and "count_ok m"
    and "k \<notin> fst ` entries m"
  shows "chain_ok m'" and "count_ok m'" and "entries m' = insert (k, v) (entries m)"
  using put_fresh_sem(1) [OF assms(1) [unfolded hashmap_put_def] assms(2,3,4)] by simp_all

lemma hashmap_put_list_sem:
  assumes "hashmap_put_list lim m kvs = Some m'" and "chain_ok m" and "count_ok m"
    and "distinct (map fst kvs)" and "\<forall>k\<in>fst ` set kvs. k \<notin> fst ` entries m"
  shows "chain_ok m' \<and> count_ok m' \<and> entries m' = entries m \<union> set kvs"
  using assms
proof (induction kvs arbitrary: m)
  case Nil
  then show ?case by simp
next
  case (Cons kv kvs)
  obtain k v where kv: "kv = (k, v)" by (cases kv)
  from Cons.prems(1) obtain m1 where put: "hashmap_put lim m k v = Some (MAP_OK, m1)"
    and rest: "hashmap_put_list lim m1 kvs = Some m'"
    by (auto simp: kv split: option.splits if_splits)
  from Cons.prems(5) have fresh: "k \<notin> fst ` entries m"
    by (simp add: kv)
  note m1 = hashmap_put_new_key [OF put Cons.prems(2,3) fresh]
  from Cons.prems(4) have d: "distinct (map fst kvs)" and nk: "k \<notin> fst ` set kvs"
    by (simp_all add: kv)
  have fr: "\<forall>k'\<in>fst ` set kvs. k' \<notin> fst ` entries m1"
  proof
    fix k' assume k': "k' \<in> fst ` set kvs"
    with nk have "k' \<noteq> k" by metis
    moreover from Cons.prems(5) k' have "k' \<notin> fst ` entries m" by auto
    ultimately show "k' \<notin> fst ` entries m1" by (simp add: m1(3))
  qed
  from Cons.IH [OF rest m1(1,2) d fr] show ?case
    by (simp add: m1(3) kv)
qed

lemma BRSetAdd_list_ok_iff:
  "BRSetAdd_list_ok lim s xs \<longleftrightarrow>
     NULL \<notin> set xs \<and> hashmap_put_list lim (map_s s) (map (\<lambda>x. (hash s x, x)) xs) \<noteq> None"
proof (induction xs arbitrary: s)
  case Nil
  then show ?case by simp
next
  case (Cons x xs)
  show ?case
  proof (cases "hashmap_put lim (map_s s) (hash s x) x")
    case None
    then show ?thesis by (simp add: BRSetAdd_status_def)
  next
    case (Some r)
    obtain st m1 where r: "r = (st, m1)" by (cases r)
    from Cons.IH [of "s\<lparr>map_s := m1\<rparr>"] Some r show ?thesis
      by (auto simp: BRSetAdd_status_def BRSetAdd_eq)
  qed
qed

lemma BRSetAdd_list_puts:
  assumes "BRSetAdd_list_ok lim s xs"
  shows "\<exists>m'. hashmap_put_list lim (map_s s) (map (\<lambda>x. (hash s x, x)) xs) = Some m' \<and>
           BRSetAdd_list lim s xs = Some (s\<lparr>map_s := m'\<rparr>) \<and> NULL \<notin> set xs"
  using assms
proof (induction xs arbitrary: s)
  case Nil
  then show ?case by simp
next
  case (Cons x xs)
  from Cons.prems obtain m1 where put: "hashmap_put lim (map_s s) (hash s x) x = Some (MAP_OK, m1)"
    by (auto simp: BRSetAdd_status_def)
  from Cons.prems have x: "x \<noteq> NULL"
    by (auto simp: BRSetAdd_eq split: if_splits)
  let ?s1 = "s\<lparr>map_s := m1\<rparr>"
  from put x have add: "BRSetAdd lim s x = Some (hashmap_get (map_s s) (hash s x), ?s1)"
    by (simp add: BRSetAdd_eq)
  with Cons.prems have "BRSetAdd_list_ok lim ?s1 xs"
    by simp
  from Cons.IH [OF this] obtain m' where
    m': "hashmap_put_list lim m1 (map (\<lambda>x. (hash s x, x)) xs) = Some m'"
      "BRSetAdd_list lim ?s1 xs = Some (s\<lparr>map_s := m'\<rparr>)" "NULL \<notin> set xs"
    by auto
  with put add x show ?case by auto
qed

section \<open>Keys that collide in every table\<close>

lemma entries_update_subset:
  "entries (m\<lparr>data_m := (data_m m)[i := \<lparr>key = k, in_use = u, data = v\<rparr>], size_m := n\<rparr>)
     \<subseteq> insert (k, v) (entries m)"
proof
  fix p
  let ?m' = "m\<lparr>data_m := (data_m m)[i := \<lparr>key = k, in_use = u, data = v\<rparr>], size_m := n\<rparr>"
  assume "p \<in> entries ?m'"
  then obtain x where x: "x < length (data_m m)" "in_use (data_m ?m' ! x) \<noteq> 0"
    "p = (key (data_m ?m' ! x), data (data_m ?m' ! x))"
    unfolding entries_def by auto
  show "p \<in> insert (k, v) (entries m)"
  proof (cases "x = i")
    case True
    with x show ?thesis by simp
  next
    case False
    with x have "in_use (data_m m ! x) \<noteq> 0" "p = (key (data_m m ! x), data (data_m m ! x))"
      by simp_all
    with entriesI [OF x(1)] show ?thesis by simp
  qed
qed

lemma put_keys_subset:
  "hashmap_put_fuel lim fuel m k v = Some (st, m') \<Longrightarrow>
     fst ` entries m' \<subseteq> insert k (fst ` entries m) \<and>
     (st \<noteq> MAP_OK \<longrightarrow> fst ` entries m' \<subseteq> fst ` entries m)"
  "hashmap_rehash_fuel lim f m = Some (st, m') \<Longrightarrow> fst ` entries m' \<subseteq> fst ` entries m"
  "rehash_loop lim f m es = Some (st, m') \<Longrightarrow>
     fst ` entries m' \<subseteq> fst ` entries m \<union> key ` {e \<in> set es. in_use e \<noteq> 0}"
proof (induction lim fuel m k v and lim f m and lim f m es arbitrary: st m' and st m' and st m'
    rule: hashmap_put_fuel_hashmap_rehash_fuel_rehash_loop.induct)
  case (1 lim fuel m k v)
  show ?case
  proof (cases "hashmap_hash m k")
    case (Slot i)
    with "1.prems" have st: "st = MAP_OK"
      and m': "m' = m\<lparr>data_m := (data_m m)[i := \<lparr>key = k, in_use = 1, data = v\<rparr>],
        size_m := size_m m + 1\<rparr>"
      by (simp_all add: hashmap_put_fuel_Slot)
    from entries_update_subset [where m = m and i = i and k = k and u = 1 and v = v
        and n = "size_m m + 1"]
    show ?thesis
      unfolding m' st by auto
  next
    case MAP_FULL
    with "1.prems"(1) obtain f st1 m1 where fuel: "fuel = Suc f"
      and re: "hashmap_rehash_fuel lim f m = Some (st1, m1)"
      and res: "(if st1 = MAP_OMEM then Some (MAP_OMEM, m1) else hashmap_put_fuel lim f m1 k v) =
          Some (st, m')"
      by (auto simp: hashmap_put_fuel_FULL split: nat.splits option.splits)
    note r = "1.IH"(1) [OF MAP_FULL fuel re]
    show ?thesis
    proof (cases "st1 = MAP_OMEM")
      case True
      with res r show ?thesis by auto
    next
      case False
      with res have "hashmap_put_fuel lim f m1 k v = Some (st, m')" by simp
      from "1.IH"(2) [OF MAP_FULL fuel re refl False this] r show ?thesis by blast
    qed
  qed
next
  case (2 lim f m)
  show ?case
  proof (cases "calloc lim (2 * table_size m)")
    case None
    with "2.prems" show ?thesis
      by (auto simp: hashmap_rehash_fuel.simps)
  next
    case (Some temp)
    let ?m0 = "m\<lparr>data_m := temp, table_size := 2 * table_size m, size_m := 0\<rparr>"
    from Some have temp: "temp = replicate (2 * table_size m) zero_element"
      by (simp add: calloc_def split: if_splits)
    have e0: "entries ?m0 = {}"
      by (rule entries_empty) (simp add: temp)
    from "2.prems"(1) Some
    have "rehash_loop lim f ?m0 (take (table_size m) (data_m m)) = Some (st, m')"
      by (simp add: hashmap_rehash_fuel.simps)
    from "2.IH" [OF Some this] e0
    have "fst ` entries m' \<subseteq> key ` {e \<in> set (take (table_size m) (data_m m)). in_use e \<noteq> 0}"
      by simp
    also have "\<dots> \<subseteq> key ` {e \<in> set (data_m m). in_use e \<noteq> 0}"
      using set_take_subset [of "table_size m" "data_m m"] by blast
    also have "\<dots> = fst ` entries m"
      unfolding entries_set by force
    finally show ?thesis .
  qed
next
  case (3 lim f m)
  then show ?case by simp
next
  case (4 lim f m e es)
  show ?case
  proof (cases "in_use e = 0")
    case True
    with "4.prems" have "rehash_loop lim f m es = Some (st, m')" by simp
    from "4.IH"(1) [OF True this] show ?thesis by auto
  next
    case False
    with "4.prems"(1) obtain st1 m1 where put: "hashmap_put_fuel lim f m (key e) (data e) = Some (st1, m1)"
      and res: "(if st1 \<noteq> MAP_OK then Some (st1, m1) else rehash_loop lim f m1 es) = Some (st, m')"
      by (auto split: option.splits)
    note p = "4.IH"(2) [OF False put]
    have K: "key ` {x \<in> set (e # es). in_use x \<noteq> 0} =
        insert (key e) (key ` {x \<in> set es. in_use x \<noteq> 0})"
      using False by auto
    define A where "A = fst ` entries m'"
    define B where "B = fst ` entries m1"
    define C where "C = fst ` entries m"
    define D where "D = key ` {x \<in> set es. in_use x \<noteq> 0}"
    from p have BC: "B \<subseteq> insert (key e) C" and BC': "st1 \<noteq> MAP_OK \<longrightarrow> B \<subseteq> C"
      by (simp_all add: B_def C_def)
    have "A \<subseteq> C \<union> insert (key e) D"
    proof (cases "st1 = MAP_OK")
      case True
      with res have "rehash_loop lim f m1 es = Some (st, m')" by simp
      from "4.IH"(3) [OF False put refl _ this] True
      have "A \<subseteq> B \<union> D"
        by (simp add: A_def B_def D_def)
      with BC show ?thesis by blast
    next
      case ne: False
      with res have "m' = m1" by simp
      then have "A = B" by (simp add: A_def B_def)
      with BC' ne show ?thesis by blast
    qed
    then show ?thesis
      unfolding K A_def C_def D_def .
  qed
qed

lemma hash_probe_all_taken:
  "\<forall>j<n. in_use (data_m m ! probe_pos m k (s + j)) \<noteq> 0 \<and>
          key (data_m m ! probe_pos m k (s + j)) \<noteq> k \<Longrightarrow>
   hash_probe m k (probe_pos m k s) n = MAP_FULL"
proof (induction n arbitrary: s)
  case 0
  then show ?case by simp
next
  case (Suc n)
  from Suc.prems have here: "in_use (data_m m ! probe_pos m k s) \<noteq> 0"
      "key (data_m m ! probe_pos m k s) \<noteq> k"
    by (metis add.right_neutral zero_less_Suc)+
  from Suc.prems have "\<forall>j<n. in_use (data_m m ! probe_pos m k (Suc s + j)) \<noteq> 0 \<and>
      key (data_m m ! probe_pos m k (Suc s + j)) \<noteq> k"
    by (metis Suc_less_eq add_Suc_shift)
  then have "hash_probe m k (probe_pos m k (Suc s)) n = MAP_FULL"
    by (rule Suc.IH)
  with here show ?case
    by (auto simp: probe_pos_Suc simp del: One_nat_def)
qed

text \<open>Keys that agree on their low 32 bits have one probe sequence in every table.\<close>

lemma probe_pos_low_bits:
  "(ucast k' :: 32 word) = ucast k \<Longrightarrow> probe_pos m k' j = probe_pos m k j"
  by (simp add: probe_pos_def hashmap_hash_int_def)

lemma colliding_keys_block:
  assumes inv: "chain_ok m" and card: "card (fst ` entries m) = MAX_CHAIN_LENGTH"
    and coll: "\<forall>k'\<in>fst ` entries m. (ucast k' :: 32 word) = ucast k"
    and fresh: "k \<notin> fst ` entries m"
  shows "hashmap_hash m k = MAP_FULL"
proof -
  let ?d = "data_m m" and ?N = "table_size m"
  let ?U = "{i. i < length ?d \<and> in_use (?d ! i) \<noteq> 0}"
  let ?P = "probe_pos m k ` {..<MAX_CHAIN_LENGTH}"
  from inv have ok: "length ?d = ?N" "0 < ?N"
    by (simp_all add: chain_ok_def table_ok_def)
  have keys: "fst ` entries m = (\<lambda>i. key (?d ! i)) ` ?U"
    unfolding entries_def by force
  have "inj_on (\<lambda>i. key (?d ! i)) ?U"
  proof (rule inj_onI)
    fix x y assume "x \<in> ?U" "y \<in> ?U" "key (?d ! x) = key (?d ! y)"
    with inv show "x = y"
      unfolding chain_ok_def table_ok_def by simp
  qed
  then have "card (fst ` entries m) = card ?U"
    unfolding keys by (rule card_image)
  with card have cU: "card ?U = MAX_CHAIN_LENGTH" by simp
  have sub: "?U \<subseteq> ?P"
  proof
    fix i assume "i \<in> ?U"
    then have i: "i < ?N" "in_use (?d ! i) \<noteq> 0" using ok by simp_all
    with inv obtain j where j: "j < MAX_CHAIN_LENGTH" "probe_pos m (key (?d ! i)) j = i"
      unfolding chain_ok_def by blast
    from i ok have "key (?d ! i) \<in> fst ` entries m"
      unfolding keys by auto
    with coll have "(ucast (key (?d ! i)) :: 32 word) = ucast k" by blast
    from probe_pos_low_bits [OF this] j show "i \<in> ?P" by auto
  qed
  have "card ?P \<le> card {..<MAX_CHAIN_LENGTH}"
    by (intro card_image_le) simp
  with cU have "card ?P \<le> card ?U" by simp
  with sub have eq: "?U = ?P"
    by (intro card_seteq) simp_all
  have taken: "in_use (?d ! probe_pos m k (0 + j)) \<noteq> 0 \<and> key (?d ! probe_pos m k (0 + j)) \<noteq> k"
    if "j < MAX_CHAIN_LENGTH" for j
  proof -
    from that have "probe_pos m k j \<in> ?P" by simp
    with eq have u: "probe_pos m k j < length ?d" "in_use (?d ! probe_pos m k j) \<noteq> 0"
      by auto
    then have "key (?d ! probe_pos m k j) \<in> fst ` entries m"
      unfolding keys by auto
    with fresh have "key (?d ! probe_pos m k j) \<noteq> k" by metis
    with u show ?thesis by simp
  qed
  then have "hash_probe m k (probe_pos m k 0) MAX_CHAIN_LENGTH = MAP_FULL"
    by (intro hash_probe_all_taken) blast
  then show ?thesis
    by (simp add: hashmap_hash_def probe_pos_0)
qed

lemma colliding_put_fuel_fails:
  assumes "hashmap_put_fuel lim fuel m k v = Some (st, m')"
    and "chain_ok m" and "card (fst ` entries m) = MAX_CHAIN_LENGTH"
    and "\<forall>k'\<in>fst ` entries m. (ucast k' :: 32 word) = ucast k" and "k \<notin> fst ` entries m"
  shows "st \<noteq> MAP_OK"
  using assms
proof (induction fuel arbitrary: m)
  case 0
  from colliding_keys_block [OF "0.prems"(2-5)] "0.prems"(1) show ?case
    by (simp add: hashmap_put_fuel_FULL)
next
  case (Suc f)
  note full = colliding_keys_block [OF Suc.prems(2-5)]
  with Suc.prems(1) obtain st1 m1 where re: "hashmap_rehash_fuel lim f m = Some (st1, m1)"
    and res: "(if st1 = MAP_OMEM then Some (MAP_OMEM, m1) else hashmap_put_fuel lim f m1 k v) =
        Some (st, m')"
    by (auto simp: hashmap_put_fuel_FULL split: option.splits)
  show ?case
  proof (cases "st1 = MAP_OMEM")
    case True
    with res show ?thesis by auto
  next
    case False
    with res have put: "hashmap_put_fuel lim f m1 k v = Some (st, m')" by simp
    from Suc.prems(2) have ok: "table_ok m" by (simp add: chain_ok_def)
    from put_shape(2) [OF re ok] False have st1: "st1 = MAP_OK" by auto
    from put_fresh_sem(2) [OF re [unfolded st1] Suc.prems(2)]
    have "chain_ok m1" "entries m1 = entries m" by simp_all
    with Suc.IH [OF put] Suc.prems(3-5) show ?thesis by simp
  qed
qed

lemma colliding_put_fails:
  assumes inv: "chain_ok m" and card: "card (fst ` entries m) = MAX_CHAIN_LENGTH"
    and coll: "\<forall>k'\<in>fst ` entries m. (ucast k' :: 32 word) = ucast k"
    and fresh: "k \<notin> fst ` entries m"
  shows "\<exists>m'. hashmap_put lim m k v = Some (MAP_OMEM, m') \<and> table_ok m' \<and>
           fst ` entries m' \<subseteq> fst ` entries m"
proof -
  from inv have ok: "table_ok m" by (simp add: chain_ok_def)
  from hashmap_put_returns [OF ok, of lim k v] obtain st m'
    where put: "hashmap_put lim m k v = Some (st, m')" and st: "st = MAP_OK \<or> st = MAP_OMEM"
    by blast
  from colliding_put_fuel_fails [OF put [unfolded hashmap_put_def] inv card coll fresh] st
  have st': "st = MAP_OMEM" by simp
  from put_keys_subset(1) [OF put [unfolded hashmap_put_def]] st'
  have "fst ` entries m' \<subseteq> fst ` entries m" by simp
  moreover from put_shape(1) [OF put [unfolded hashmap_put_def] ok] have "table_ok m'" by simp
  ultimately show ?thesis using put st' by simp
qed

lemma hashmap_put_run_append:
  "hashmap_put_run lim m (xs @ ys) =
     (case hashmap_put_run lim m xs of None \<Rightarrow> None | Some m' \<Rightarrow> hashmap_put_run lim m' ys)"
  by (induction xs arbitrary: m) (auto split: option.splits)

lemma hashmap_put_list_run:
  "hashmap_put_list lim m kvs = Some m' \<Longrightarrow> hashmap_put_run lim m kvs = Some m'"
  by (induction kvs arbitrary: m) (auto split: option.splits if_splits)

lemma hashmap_put_run_other_keys:
  assumes "table_ok m" and "k \<notin> fst ` entries m" and "k \<notin> fst ` set kvs"
  shows "\<exists>m'. hashmap_put_run lim m kvs = Some m' \<and> table_ok m' \<and> k \<notin> fst ` entries m'"
  using assms
proof (induction kvs arbitrary: m)
  case Nil
  then show ?case by simp
next
  case (Cons kv kvs)
  obtain k1 v1 where kv: "kv = (k1, v1)" by (cases kv)
  from hashmap_put_returns [OF Cons.prems(1), of lim k1 v1] obtain st m1
    where put: "hashmap_put lim m k1 v1 = Some (st, m1)"
    by blast
  from put_shape(1) [OF put [unfolded hashmap_put_def] Cons.prems(1)] have ok1: "table_ok m1"
    by simp
  from put_keys_subset(1) [OF put [unfolded hashmap_put_def]]
  have "fst ` entries m1 \<subseteq> insert k1 (fst ` entries m)"
    by simp
  moreover from Cons.prems(3) have "k \<noteq> k1" "k \<notin> fst ` set kvs"
    by (auto simp: kv)
  ultimately have "k \<notin> fst ` entries m1" "k \<notin> fst ` set kvs"
    using Cons.prems(2) by auto
  from Cons.IH [OF ok1 this] put show ?case
    by (simp add: kv)
qed

lemma BRSetAdd_list_append:
  "BRSetAdd_list lim s (xs @ ys) =
     (case BRSetAdd_list lim s xs of None \<Rightarrow> None | Some s' \<Rightarrow> BRSetAdd_list lim s' ys)"
  by (induction xs arbitrary: s) (auto split: option.splits)

lemma colliding_keys_facts:
  "distinct colliding_keys_8" "length colliding_keys_8 = 8"
  "colliding_key_9 \<notin> set colliding_keys_8"
  "\<forall>k'\<in>set colliding_keys_8. (ucast k' :: 32 word) = ucast colliding_key_9"
  "NULL \<notin> set colliding_keys_8" "colliding_key_9 \<noteq> NULL"
  by (simp_all add: colliding_keys_8_def colliding_key_9_def NULL_def)

lemma colliding_puts_8:
  "\<exists>m. hashmap_put_list lim fresh_table (map (\<lambda>x. (x, x)) colliding_keys_8) = Some m"
  by (simp add: colliding_keys_8_def hashmap_put_case eval_defs)

lemma colliding_table:
  assumes "hashmap_put_list lim fresh_table (map (\<lambda>x. (x, x)) colliding_keys_8) = Some m"
  shows "\<exists>m'. hashmap_put lim m colliding_key_9 colliding_key_9 = Some (MAP_OMEM, m') \<and>
           table_ok m' \<and> colliding_key_9 \<notin> fst ` entries m'"
proof -
  let ?kvs = "map (\<lambda>x. (x, x)) colliding_keys_8"
  have d: "distinct (map fst ?kvs)"
    using colliding_keys_facts(1) by (simp add: comp_def)
  have fr: "\<forall>k\<in>fst ` set ?kvs. k \<notin> fst ` entries fresh_table"
    by (simp add: fresh_table_inv(3))
  from hashmap_put_list_sem [OF assms fresh_table_inv(1,2) d fr]
  have inv: "chain_ok m" and ent: "entries m = set ?kvs"
    by (simp_all add: fresh_table_inv(3))
  have keys: "fst ` entries m = set colliding_keys_8"
    unfolding ent by force
  have card: "card (fst ` entries m) = MAX_CHAIN_LENGTH"
    unfolding keys using colliding_keys_facts(1,2)
    by (simp add: distinct_card MAX_CHAIN_LENGTH_def)
  have coll: "\<forall>k'\<in>fst ` entries m. (ucast k' :: 32 word) = ucast colliding_key_9"
    unfolding keys by (rule colliding_keys_facts(4))
  have fresh: "colliding_key_9 \<notin> fst ` entries m"
    unfolding keys by (rule colliding_keys_facts(3))
  from colliding_put_fails [OF inv card coll fresh, of lim colliding_key_9] fresh
  show ?thesis by blast
qed

lemma of_nat_upt_distinct: "distinct (map of_nat [2..<120] :: any_t list)"
proof -
  have "inj_on (of_nat :: nat \<Rightarrow> any_t) {2..<120}"
  proof (rule inj_onI)
    fix x y :: nat assume "x \<in> {2..<120}" "y \<in> {2..<120}" "(of_nat x :: any_t) = of_nat y"
    then have "unat (of_nat x :: any_t) = unat (of_nat y :: any_t)" "x < 2 ^ 64" "y < 2 ^ 64"
      by simp_all
    then show "x = y"
      by (simp add: unat_of_nat)
  qed
  then show ?thesis
    by (simp add: distinct_map del: upt_rec_numeral)
qed

lemma of_nat_upt_small:
  assumes "k \<in> set (map of_nat [2..<120] :: any_t list)"
  shows "2 \<le> unat k \<and> unat k < 120"
proof -
  from assms obtain n :: nat where n: "2 \<le> n" "n < 120" "k = of_nat n"
    by (auto simp del: upt_rec_numeral)
  then have "n < 2 ^ 64" by simp
  with n show ?thesis
    by (simp add: unat_of_nat)
qed

section \<open>Evaluating a rehash\<close>

lemma hashmap_put_fuel_case:
  "hashmap_put_fuel lim fuel m k v =
     (case hashmap_hash m k of
        Slot i \<Rightarrow> Some (MAP_OK, m\<lparr>data_m := (data_m m)[i := \<lparr>key = k, in_use = 1, data = v\<rparr>], size_m := size_m m + 1\<rparr>)
      | MAP_FULL \<Rightarrow> hashmap_put_fuel lim fuel m k v)"
  by (cases "hashmap_hash m k") (simp_all add: hashmap_put_fuel_Slot)

lemma rehash_from_step:
  "rehash_from lim f m xs i =
     (if i < length xs then
        (if in_use (xs ! i) = 0 then rehash_from lim f m xs (Suc i)
         else
           (case hashmap_put_fuel lim f m (key (xs ! i)) (data (xs ! i)) of
              None \<Rightarrow> None
            | Some (st, m') \<Rightarrow>
                if st \<noteq> MAP_OK then Some (st, m') else rehash_from lim f m' xs (Suc i)))
      else Some (MAP_OK, m))"
proof (cases "i < length xs")
  case True
  then have "drop i xs = xs ! i # drop (Suc i) xs"
    by (simp add: Cons_nth_drop_Suc)
  with True show ?thesis by (simp add: rehash_from_def split: option.splits)
next
  case False
  then show ?thesis by (simp add: rehash_from_def)
qed

lemma rehash_loop_from:
  "length xs \<le> n \<Longrightarrow> rehash_loop lim f m (take n xs) = rehash_from lim f m xs 0"
  by (simp add: rehash_from_def)

lemma growth_puts: "hashmap_put_list 1024 fresh_table growth_kvs = Some growth_table_8"
  by (simp add: growth_kvs_def hashmap_put_case eval_defs)
    (simp add: growth_table_8_def fresh_table_def)

lemma growth_full: "hashmap_hash growth_table_8 843 = MAP_FULL"
  by (simp add: eval_defs growth_table_8_def)

lemma growth_rehash: "hashmap_rehash_fuel 1024 1024 growth_table_8 = Some (MAP_OK, growth_table_rehashed)"
proof -
  have len: "length (data_m growth_table_8) \<le> table_size growth_table_8"
    by (simp add: growth_table_8_def)
  have "hashmap_rehash_fuel 1024 1024 growth_table_8 =
      rehash_from 1024 1024
        (growth_table_8\<lparr>data_m := replicate 512 zero_element, table_size := 512, size_m := 0\<rparr>)
        (data_m growth_table_8) 0"
    unfolding hashmap_rehash_fuel.simps rehash_loop_from [OF len]
    by (simp add: calloc_def growth_table_8_def)
  also have "\<dots> = Some (MAP_OK, growth_table_rehashed)"
    by (simp add: growth_table_8_def rehash_from_step hashmap_put_fuel_case eval_defs
        numeral_2_eq_2 [symmetric])
      (simp add: growth_table_rehashed_def)
  finally show ?thesis .
qed

section \<open>Keys found by the insert probe, growth at the threshold\<close>



lemma hashmap_put_grows:
  assumes ok: "table_ok m" and full: "hashmap_hash m k = MAP_FULL"
    and put: "hashmap_put lim m k v = Some (MAP_OK, m')"
  shows "2 * table_size m \<le> table_size m'"
proof -
  from put full obtain st1 m1 where re: "hashmap_rehash_fuel lim lim m = Some (st1, m1)"
    and res: "(if st1 = MAP_OMEM then Some (MAP_OMEM, m1) else hashmap_put_fuel lim lim m1 k v) =
        Some (MAP_OK, m')"
    by (auto simp: hashmap_put_def hashmap_put_fuel_FULL split: option.splits)
  from res have ne: "st1 \<noteq> MAP_OMEM" and p1: "hashmap_put_fuel lim lim m1 k v = Some (MAP_OK, m')"
    by (auto split: if_splits)
  from put_shape(2) [OF re ok] ne have "table_ok m1" "2 * table_size m \<le> table_size m1"
    by auto
  with put_shape(1) [OF p1] show ?thesis by auto
qed

lemma table_19_counted: "n < 128 \<Longrightarrow> reachable lim (table_19\<lparr>size_m := 1 + int n\<rparr>)"
  if "256 \<le> lim"
proof (induction n)
  case 0
  have r0: "reachable lim fresh_table"
    using that by (intro reach_new) (simp add: hashmap_new_eq)
  have h: "hashmap_hash fresh_table 19 = Slot 3"
    by (simp add: eval_defs)
  have "hashmap_put lim fresh_table 19 7 = Some (MAP_OK, table_19)"
    by (simp add: hashmap_put_Slot [OF h]) (simp add: fresh_table_def table_19_def)
  with r0 have "reachable lim table_19"
    by (rule reach_put)
  then show ?case by (simp add: table_19_def)
next
  case (Suc n)
  then have r: "reachable lim (table_19\<lparr>size_m := 1 + int n\<rparr>)" and n: "n < 127"
    by simp_all
  from n have h: "hashmap_hash (table_19\<lparr>size_m := 1 + int n\<rparr>) 19 = Slot 3"
    by (simp add: eval_defs table_19_def)
  have "hashmap_put lim (table_19\<lparr>size_m := 1 + int n\<rparr>) 19 7 =
      Some (MAP_OK, table_19\<lparr>size_m := 1 + int (Suc n)\<rparr>)"
    by (simp add: hashmap_put_Slot [OF h]) (simp add: table_19_def)
  with r show ?case
    by (rule reach_put)
qed

lemma table_19_full_reachable: "reachable 1024 table_19_full"
proof -
  have "reachable 1024 (table_19\<lparr>size_m := 1 + int 127\<rparr>)"
    by (rule table_19_counted) simp_all
  then show ?thesis
    by (simp add: table_19_def table_19_full_def)
qed

lemma table_19_full_rehash:
  "hashmap_rehash_fuel 1024 1024 table_19_full = Some (MAP_OK, table_19_rehashed)"
proof -
  have len: "length (data_m table_19_full) \<le> table_size table_19_full"
    by (simp add: table_19_full_def)
  have "hashmap_rehash_fuel 1024 1024 table_19_full =
      rehash_from 1024 1024
        (table_19_full\<lparr>data_m := replicate 512 zero_element, table_size := 512, size_m := 0\<rparr>)
        (data_m table_19_full) 0"
    unfolding hashmap_rehash_fuel.simps rehash_loop_from [OF len]
    by (simp add: calloc_def table_19_full_def)
  also have "\<dots> = Some (MAP_OK, table_19_rehashed)"
    by (simp add: table_19_full_def rehash_from_step hashmap_put_fuel_case eval_defs
        numeral_2_eq_2 [symmetric])
      (simp add: table_19_rehashed_def)
  finally show ?thesis .
qed

lemma table_19_full_put:
  "hashmap_hash table_19_full 214 = MAP_FULL"
  "hashmap_put 1024 table_19_full 214 7 = Some (MAP_OK, table_19_grown)"
proof -
  show full: "hashmap_hash table_19_full 214 = MAP_FULL"
    by (simp add: hashmap_hash_def table_19_full_def)
  have slot: "hashmap_hash table_19_rehashed 214 = Slot 2"
    by (simp add: eval_defs table_19_rehashed_def)
  show "hashmap_put 1024 table_19_full 214 7 = Some (MAP_OK, table_19_grown)"
    unfolding hashmap_put_def
    by (simp add: hashmap_put_fuel_FULL [OF full] table_19_full_rehash
        hashmap_put_fuel_Slot [OF slot])
      (simp add: table_19_rehashed_def table_19_grown_def)
qed

section \<open>The claims\<close>

text \<open>
  Claim C1 (two distinct items with one hash, added to a fresh set, leave \<open>count() = 1\<close>
  and \<open>get(a) = b\<close>). The second \<^verbatim>\<open>hashmap_put\<close> finds the slot of the first and
  overwrites it, so \<open>get(a)\<close> is \<open>b\<close>; but it runs \<^verbatim>\<open>m->size++\<close> again: the count
  is 2, although \<^verbatim>\<open>BRSetCount\<close> is documented to return the number of items in the set.
\<close>

theorem BRSetAdd_collision_counts_two:
  assumes "BRSetNew lim h e cap = Some s0" and "a \<noteq> NULL" and "b \<noteq> NULL"
    and "a \<noteq> b" and "h a = h b"
  shows "\<exists>t1 s1 t2 s2. BRSetAdd lim s0 a = Some (t1, s1) \<and> BRSetAdd lim s1 b = Some (t2, s2) \<and>
           BRSetCount s2 = 2 \<and> BRSetGet s2 a = Some b"
  using BRSet_two_adds [OF assms(1,2,3,5)] by blast

theorem BRSetAdd_collision_counts_two_witness:
  "BRSetNew 256 (\<lambda>item. 5) (\<lambda>x y. 0) 0 = Some \<lparr>map_s = fresh_table, hash = (\<lambda>item. 5), eq = (\<lambda>x y. 0)\<rparr> \<and>
   (1::any_t) \<noteq> NULL \<and> (2::any_t) \<noteq> NULL \<and> (1::any_t) \<noteq> 2 \<and>
   (\<exists>t1 s1 t2 s2.
      BRSetAdd 256 \<lparr>map_s = fresh_table, hash = (\<lambda>item. 5), eq = (\<lambda>x y. 0)\<rparr> 1 = Some (t1, s1) \<and>
      BRSetAdd 256 s1 2 = Some (t2, s2) \<and> BRSetCount s2 = 2 \<and> BRSetGet s2 1 = Some 2)"
proof -
  have new: "BRSetNew 256 (\<lambda>item. 5) (\<lambda>x y. 0) 0 =
      Some \<lparr>map_s = fresh_table, hash = (\<lambda>item. 5), eq = (\<lambda>x y. 0)\<rparr>"
    by (simp add: BRSetNew_def hashmap_new_eq)
  have ne: "(1::any_t) \<noteq> NULL" "(2::any_t) \<noteq> NULL" "(1::any_t) \<noteq> 2"
    by (simp_all add: NULL_def)
  from BRSetAdd_collision_counts_two [OF new ne] new ne show ?thesis by simp
qed

text \<open>
  Claim C4 (adding twice under one hash leaves the count unchanged between the first and
  the second add, and the last reference wins). The last reference wins; the count is 1
  after the first add and 2 after the second.
\<close>

theorem BRSetAdd_same_hash_twice:
  assumes "BRSetNew lim h e cap = Some s0" and "x \<noteq> NULL" and "y \<noteq> NULL" and "h x = h y"
  shows "\<exists>s1 s2. BRSetAdd lim s0 x = Some (NULL, s1) \<and> BRSetAdd lim s1 y = Some (x, s2) \<and>
           BRSetCount s1 = 1 \<and> BRSetCount s2 = 2 \<and> BRSetGet s2 x = Some y"
  using BRSet_two_adds [OF assms] by blast

theorem BRSetAdd_same_hash_twice_witness:
  "BRSetNew 256 (\<lambda>item. item) (\<lambda>x y. 1) 0 =
     Some \<lparr>map_s = fresh_table, hash = (\<lambda>item. item), eq = (\<lambda>x y. 1)\<rparr> \<and>
   (7::any_t) \<noteq> NULL \<and>
   (\<exists>s1 s2.
      BRSetAdd 256 \<lparr>map_s = fresh_table, hash = (\<lambda>item. item), eq = (\<lambda>x y. 1)\<rparr> 7 = Some (NULL, s1) \<and>
      BRSetAdd 256 s1 7 = Some (7, s2) \<and>
      BRSetCount s1 = 1 \<and> BRSetCount s2 = 2 \<and> BRSetGet s2 7 = Some 7)"
proof -
  have new: "BRSetNew 256 (\<lambda>item. item) (\<lambda>x y. 1) 0 =
      Some \<lparr>map_s = fresh_table, hash = (\<lambda>item. item), eq = (\<lambda>x y. 1)\<rparr>"
    by (simp add: BRSetNew_def hashmap_new_eq)
  have ne: "(7::any_t) \<noteq> NULL"
    by (simp add: NULL_def)
  from BRSetAdd_same_hash_twice [OF new ne ne refl] new ne show ?thesis by simp
qed

text \<open>
  Claim C2 (clear resets the first 8 slots and returns after one iteration, leaving the
  entries at index 8 and beyond). The loop returns inside its first iteration, so it
  resets slot 0 and nothing else: an entry in slot 3 survives a clear. What holds is that
  clear resets slot 0, decrements the count and leaves every slot of index 1 or more as it
  was.
\<close>

theorem hashmap_clear_resets_slot_0_only:
  "fst (hashmap_clear m) = MAP_OK \<and>
   data_m (snd (hashmap_clear m)) = (data_m m)[0 := zero_element] \<and>
   size_m (snd (hashmap_clear m)) = size_m m - 1 \<and>
   table_size (snd (hashmap_clear m)) = table_size m \<and>
   (\<forall>i. 0 < i \<longrightarrow> data_m (snd (hashmap_clear m)) ! i = data_m m ! i)"
  by (simp add: hashmap_clear_eq)

theorem hashmap_clear_resets_slot_0_only_witness:
  "fst (hashmap_clear table_19) = MAP_OK \<and>
   data_m (snd (hashmap_clear table_19)) = (data_m table_19)[0 := zero_element] \<and>
   size_m (snd (hashmap_clear table_19)) = 0 \<and>
   (0::nat) < 3 \<and>
   data_m (snd (hashmap_clear table_19)) ! 3 = \<lparr>key = 19, in_use = 1, data = 7\<rparr>"
  using hashmap_clear_resets_slot_0_only [of table_19]
  by (simp add: table_19_def)

theorem hashmap_clear_first_8_slots_counterexample:
  "hashmap_new 256 = Some fresh_table \<and>
   hashmap_put 256 fresh_table 19 7 = Some (MAP_OK, table_19) \<and>
   in_use (data_m (snd (hashmap_clear table_19)) ! 3) = 1 \<and>
   key (data_m (snd (hashmap_clear table_19)) ! 3) = 19 \<and>
   hashmap_get (snd (hashmap_clear table_19)) 19 = 7"
proof -
  have h: "hashmap_hash fresh_table 19 = Slot 3"
    by (simp add: eval_defs)
  have "hashmap_put 256 fresh_table 19 7 = Some (MAP_OK, table_19)"
    by (simp add: hashmap_put_Slot [OF h]) (simp add: fresh_table_def table_19_def)
  moreover have "hashmap_get (snd (hashmap_clear table_19)) 19 = 7"
    by (simp add: hashmap_clear_eq) (simp add: eval_defs table_19_def)
  ultimately show ?thesis
    by (simp add: hashmap_new_eq hashmap_clear_eq) (simp add: table_19_def)
qed

text \<open>
  Claim C10 (every clear, also on an empty table, decrements the count by one and reports
  success, so that repeated clears of an empty table make the length negative).
\<close>

theorem hashmap_clear_always_decrements:
  "fst (hashmap_clear m) = MAP_OK \<and>
   hashmap_length (Some (snd (hashmap_clear m))) = hashmap_length (Some m) - 1 \<and>
   hashmap_length (Some (clear_times n fresh_table)) = - int n"
  using clear_times_length [of n fresh_table] by (simp add: hashmap_clear_eq)

text \<open>
  Claim C7 (remove of a key that is not within the 8-slot probe bound returns
  \<^verbatim>\<open>MAP_MISSING\<close> and leaves the slots and the count unchanged). A get of such a key
  returns \<^verbatim>\<open>NULL\<close>.
\<close>

theorem hashmap_remove_absent_key:
  assumes "\<forall>j<MAX_CHAIN_LENGTH.
      \<not> (in_use (data_m m ! ((hashmap_hash_int m k + j) mod table_size m)) = 1 \<and>
         key (data_m m ! ((hashmap_hash_int m k + j) mod table_size m)) = k)"
  shows "hashmap_remove m k = (MAP_MISSING, m) \<and> hashmap_get m k = NULL"
proof -
  from assms have absent: "\<forall>j<MAX_CHAIN_LENGTH.
      \<not> (in_use (data_m m ! probe_pos m k (0 + j)) = 1 \<and>
         key (data_m m ! probe_pos m k (0 + j)) = k)"
    by (simp add: probe_pos_def)
  then have "remove_probe m k (probe_pos m k 0) MAX_CHAIN_LENGTH = (MAP_MISSING, m)"
    by (rule remove_probe_missing)
  moreover from absent have "get_probe m k (probe_pos m k 0) MAX_CHAIN_LENGTH = NULL"
    by (rule get_probe_missing)
  ultimately show ?thesis
    by (simp add: hashmap_remove_def hashmap_get_def probe_pos_0)
qed

theorem hashmap_remove_absent_key_witness:
  "hashmap_hash_int table_19 214 = 2 \<and> table_size table_19 = 256 \<and>
   hashmap_remove table_19 214 = (MAP_MISSING, table_19) \<and> hashmap_get table_19 214 = NULL"
proof -
  have hi: "hashmap_hash_int table_19 214 = 2"
    by (simp add: eval_defs table_19_def)
  have ts: "table_size table_19 = 256"
    by (simp add: table_19_def)
  have absent: "\<forall>j<MAX_CHAIN_LENGTH.
      \<not> (in_use (data_m table_19 ! ((hashmap_hash_int table_19 214 + j) mod table_size table_19)) = 1 \<and>
         key (data_m table_19 ! ((hashmap_hash_int table_19 214 + j) mod table_size table_19)) = 214)"
    unfolding hi ts by (auto simp: table_19_def MAX_CHAIN_LENGTH_def nth_list_update)
  from hashmap_remove_absent_key [OF absent] hi ts show ?thesis by blast
qed




text \<open>
  Claim C8 (for a set holding the items 1, 2 and 3, \<open>for_each\<close> calls the function on
  exactly these three, each once). \<^verbatim>\<open>BRSetApply\<close> is documented to call \<open>apply\<close> with each
  item in the set, but its loop runs over the slots \<open>0 .. count - 1\<close> instead of the whole
  table: with the identity hash the three items sit in slots 150, 221 and 170, and the
  loop over slots 0, 1, 2 calls \<open>apply\<close> on nothing.
\<close>

theorem BRSetApply_visits_first_count_slots:
  "Option.bind (BRSetNew 256 (\<lambda>item. item) (\<lambda>a b. if a = b then 1 else 0) 3)
     (\<lambda>s. BRSetAdd_list 256 s [1, 2, 3]) = Some set_123 \<and>
   BRSetCount set_123 = 3 \<and>
   BRSetGet set_123 1 = Some 1 \<and> BRSetGet set_123 2 = Some 2 \<and> BRSetGet set_123 3 = Some 3 \<and>
   BRSetApply set_123 [] (\<lambda>info item. info @ [item]) = Some []"
proof -
  have new: "BRSetNew 256 (\<lambda>item. item) (\<lambda>a b. if a = b then 1 else 0) 3 =
      Some \<lparr>map_s = fresh_table, hash = (\<lambda>item. item), eq = (\<lambda>a b. if a = b then 1 else 0)\<rparr>"
    by (simp add: BRSetNew_def hashmap_new_eq)
  have adds: "BRSetAdd_list 256
      \<lparr>map_s = fresh_table, hash = (\<lambda>item. item), eq = (\<lambda>a b. if a = b then 1 else 0)\<rparr> [1, 2, 3] =
      Some set_123"
    by (simp add: BRSetAdd_eq hashmap_put_case eval_defs)
      (simp add: set_123_def fresh_table_def)
  have count: "BRSetCount set_123 = 3"
    by (simp add: BRSetCount_def set_123_def)
  have gets: "BRSetGet set_123 1 = Some 1" "BRSetGet set_123 2 = Some 2" "BRSetGet set_123 3 = Some 3"
    by (simp_all add: BRSetGet_def eval_defs set_123_def)
  have "BRSetApply set_123 [] (\<lambda>info item. info @ [item]) = Some []"
    unfolding BRSetApply_def
    by (simp add: apply_loop_numeral hashmap_get_index_def set_123_def NULL_def)
  with new adds count gets show ?thesis by simp
qed

text \<open>
  Claim C9 (in every table reachable by the operations the count is at most the capacity,
  and after a successful insert the count is at most half the capacity, because the table
  is rehashed before the count would exceed half the capacity). In a reachable table whose
  count has reached half the capacity \<^verbatim>\<open>hashmap_hash\<close> reports \<^verbatim>\<open>MAP_FULL\<close>, and a put
  that then reports \<^verbatim>\<open>MAP_OK\<close> has at least doubled the table; whatever its status, a put
  never shrinks the table and leaves the count at most half the capacity.
\<close>

theorem reachable_count_le_half_capacity:
  assumes "reachable lim m"
  shows "hashmap_length (Some m) \<le> int (table_size m) \<and>
         2 * hashmap_length (Some m) \<le> int (table_size m) \<and>
         (\<forall>k v m'. hashmap_put lim m k v = Some (MAP_OK, m') \<longrightarrow>
            2 * hashmap_length (Some m') \<le> int (table_size m')) \<and>
         (\<forall>k. int (table_size m div 2) \<le> hashmap_length (Some m) \<longrightarrow> hashmap_hash m k = MAP_FULL) \<and>
         (\<forall>k v m'. int (table_size m div 2) \<le> hashmap_length (Some m) \<and>
            hashmap_put lim m k v = Some (MAP_OK, m') \<longrightarrow>
            2 * table_size m \<le> table_size m') \<and>
         (\<forall>k v st m'. hashmap_put lim m k v = Some (st, m') \<longrightarrow>
            (st = MAP_OK \<or> st = MAP_OMEM) \<and> table_size m \<le> table_size m' \<and>
            2 * hashmap_length (Some m') \<le> int (table_size m'))"
proof -
  from reachable_shape [OF assms] have ok: "table_ok m" and l: "load_ok m"
    by simp_all
  have a: "2 * size_m m' \<le> int (table_size m')" if "hashmap_put lim m k v = Some (MAP_OK, m')" for k v m'
    using put_shape(1) [OF that [unfolded hashmap_put_def] ok] by (simp add: load_ok_twice)
  have full: "hashmap_hash m k = MAP_FULL" if "int (table_size m div 2) \<le> size_m m" for k
    using that by (simp add: hashmap_hash_def)
  have b: "2 * table_size m \<le> table_size m'"
    if "int (table_size m div 2) \<le> size_m m \<and> hashmap_put lim m k v = Some (MAP_OK, m')" for k v m'
    using hashmap_put_grows [OF ok full] that by blast
  have c: "(st = MAP_OK \<or> st = MAP_OMEM) \<and> table_size m \<le> table_size m' \<and>
      2 * size_m m' \<le> int (table_size m')"
    if "hashmap_put lim m k v = Some (st, m')" for k v st m'
    using put_shape(1) [OF that [unfolded hashmap_put_def] ok] l by (simp add: load_ok_twice)
  from load_ok_twice [OF l] have d: "2 * size_m m \<le> int (table_size m)" .
  then have e: "size_m m \<le> int (table_size m)" by simp
  from a full b c d e show ?thesis
    unfolding hashmap_length.simps by blast
qed

theorem reachable_count_le_half_capacity_witness:
  "reachable 1024 table_19_full \<and>
   hashmap_length (Some table_19_full) = 128 \<and> table_size table_19_full = 256 \<and>
   hashmap_hash table_19_full 214 = MAP_FULL \<and>
   hashmap_put 1024 table_19_full 214 7 = Some (MAP_OK, table_19_grown) \<and>
   table_size table_19_grown = 512 \<and> hashmap_length (Some table_19_grown) = 2 \<and>
   2 * table_size table_19_full \<le> table_size table_19_grown \<and>
   2 * hashmap_length (Some table_19_grown) \<le> int (table_size table_19_grown)"
proof -
  note r = table_19_full_reachable
  note p = table_19_full_put(2)
  have s: "hashmap_length (Some table_19_full) = 128" "table_size table_19_full = 256"
    "table_size table_19_grown = 512" "hashmap_length (Some table_19_grown) = 2"
    by (simp_all add: table_19_full_def table_19_grown_def)
  from reachable_count_le_half_capacity [OF r]
  have grow: "\<forall>k v m'. int (table_size table_19_full div 2) \<le> hashmap_length (Some table_19_full) \<and>
      hashmap_put 1024 table_19_full k v = Some (MAP_OK, m') \<longrightarrow>
      2 * table_size table_19_full \<le> table_size m'"
    and load: "\<forall>k v m'. hashmap_put 1024 table_19_full k v = Some (MAP_OK, m') \<longrightarrow>
      2 * hashmap_length (Some m') \<le> int (table_size m')"
    by blast+
  have th: "int (table_size table_19_full div 2) \<le> hashmap_length (Some table_19_full)"
    by (simp add: table_19_full_def)
  from grow th p have g: "2 * table_size table_19_full \<le> table_size table_19_grown"
    by blast
  from load p have h: "2 * hashmap_length (Some table_19_grown) \<le> int (table_size table_19_grown)"
    by blast
  from r s table_19_full_put g h show ?thesis
    by blast
qed

text \<open>
  Claim C6 (after \<open>N\<close> adds of items with pairwise distinct hashes to a fresh set, the
  count is \<open>N\<close>, every added item is contained and no item with another hash is). This
  holds when every put of the run reports \<^verbatim>\<open>MAP_OK\<close>. A put can fail: nine keys with the
  same low 32 bits share their base index in a table of any size, so the ninth finds its 8
  probe slots taken by other keys after every rehash, \<^verbatim>\<open>hashmap_put\<close> doubles the table
  until \<^verbatim>\<open>calloc\<close> refuses and returns \<^verbatim>\<open>MAP_OMEM\<close>, which \<^verbatim>\<open>BRSetAdd\<close> drops: the
  ninth item is not in the set.
\<close>

theorem BRSetAdd_list_distinct_hashes:
  assumes new: "BRSetNew lim h e cap = Some s0" and d: "distinct (map h xs)"
    and ok: "BRSetAdd_list_ok lim s0 xs"
  shows "\<exists>s. BRSetAdd_list lim s0 xs = Some s \<and>
           hashmap_length (Some (map_s s)) = int (length xs) \<and>
           BRSetCount s = of_nat (length xs) \<and>
           (\<forall>x\<in>set xs. BRSetContains s x = Some True \<and> BRSetGet s x = Some x) \<and>
           (\<forall>y. y \<noteq> NULL \<and> h y \<notin> h ` set xs \<longrightarrow> BRSetContains s y = Some False)"
proof -
  from new have s0: "s0 = \<lparr>map_s = fresh_table, hash = h, eq = e\<rparr>"
    by (simp add: BRSetNew_def hashmap_new_eq split: if_splits)
  let ?kvs = "map (\<lambda>x. (h x, x)) xs"
  from BRSetAdd_list_puts [OF ok] obtain m' where
    puts: "hashmap_put_list lim fresh_table ?kvs = Some m'"
    and adds: "BRSetAdd_list lim s0 xs = Some (s0\<lparr>map_s := m'\<rparr>)" and nn: "NULL \<notin> set xs"
    by (auto simp: s0)
  let ?s = "s0\<lparr>map_s := m'\<rparr>"
  have fst_kvs: "map fst ?kvs = map h xs"
    by (simp add: comp_def)
  have d': "distinct (map fst ?kvs)"
    using d by (simp add: comp_def)
  have fr': "\<forall>k\<in>fst ` set ?kvs. k \<notin> fst ` entries fresh_table"
    by (simp add: fresh_table_inv(3))
  from hashmap_put_list_sem [OF puts fresh_table_inv(1,2) d' fr']
  have inv: "chain_ok m'" and cnt: "count_ok m'" and ent: "entries m' = set ?kvs"
    by (simp_all add: fresh_table_inv(3))
  from d have "distinct xs"
    by (simp add: distinct_map)
  then have "distinct ?kvs"
    by (simp add: distinct_map inj_on_def)
  then have "card (set ?kvs) = length ?kvs"
    by (rule distinct_card)
  then have "card (set ?kvs) = length xs"
    by simp
  with cnt occupied_card [OF inv] ent have size: "size_m m' = int (length xs)"
    by (simp add: count_ok_def)
  have get_in: "hashmap_get m' (h x) = x" if "x \<in> set xs" for x
    using that by (intro hashmap_get_stored [OF inv]) (auto simp: ent)
  have get_out: "hashmap_get m' (h y) = NULL" if "h y \<notin> h ` set xs" for y
  proof (rule hashmap_get_not_stored)
    show "table_ok m'" using inv by (simp add: chain_ok_def)
    show "h y \<notin> fst ` entries m'" using that by (auto simp: ent)
  qed
  have c1: "BRSetContains ?s x = Some True \<and> BRSetGet ?s x = Some x" if "x \<in> set xs" for x
  proof -
    from that nn have "x \<noteq> NULL" by metis
    with get_in [OF that] show ?thesis
      by (simp add: BRSetContains_def BRSetGet_def s0)
  qed
  have c2: "BRSetContains ?s y = Some False" if "y \<noteq> NULL \<and> h y \<notin> h ` set xs" for y
    using that get_out [of y] by (simp add: BRSetContains_def BRSetGet_def s0)
  have c3: "BRSetCount ?s = of_nat (length xs)" "hashmap_length (Some (map_s ?s)) = int (length xs)"
    using size by (simp_all add: BRSetCount_def)
  from adds c1 c2 c3 show ?thesis
    by blast
qed

theorem BRSetAdd_list_distinct_hashes_witness:
  "BRSetAdd_list_ok 256 \<lparr>map_s = fresh_table, hash = (\<lambda>item. item), eq = (\<lambda>a b. if a = b then 1 else 0)\<rparr> [1, 2, 3] \<and>
   (\<exists>s. BRSetAdd_list 256 \<lparr>map_s = fresh_table, hash = (\<lambda>item. item), eq = (\<lambda>a b. if a = b then 1 else 0)\<rparr> [1, 2, 3] = Some s \<and>
      hashmap_length (Some (map_s s)) = 3 \<and> BRSetCount s = 3 \<and>
      BRSetContains s 1 = Some True \<and> BRSetContains s 2 = Some True \<and>
      BRSetContains s 3 = Some True \<and> BRSetGet s 2 = Some 2 \<and>
      BRSetContains s 4 = Some False)"
proof -
  let ?h = "\<lambda>item::any_t. item"
  let ?s0 = "\<lparr>map_s = fresh_table, hash = ?h, eq = (\<lambda>a b. if a = b then 1 else 0)\<rparr>"
  have new: "BRSetNew 256 ?h (\<lambda>a b. if a = b then 1 else 0) 3 = Some ?s0"
    by (simp add: BRSetNew_def hashmap_new_eq)
  have d: "distinct (map ?h [1, 2, 3])"
    by simp
  have ok: "BRSetAdd_list_ok 256 ?s0 [1, 2, 3]"
    by (simp add: BRSetAdd_status_def BRSetAdd_eq hashmap_put_case eval_defs)
  from BRSetAdd_list_distinct_hashes [OF new d ok] obtain s where
    s: "BRSetAdd_list 256 ?s0 [1, 2, 3] = Some s" "hashmap_length (Some (map_s s)) = int (length [1::any_t, 2, 3])"
      "BRSetCount s = of_nat (length [1::any_t, 2, 3])"
      "\<forall>x\<in>set [1, 2, 3]. BRSetContains s x = Some True \<and> BRSetGet s x = Some x"
      "\<forall>y. y \<noteq> NULL \<and> ?h y \<notin> ?h ` set [1, 2, 3] \<longrightarrow> BRSetContains s y = Some False"
    by blast
  from s(5) have "BRSetContains s 4 = Some False"
    by (simp add: NULL_def)
  with s(1-4) ok show ?thesis
    by (intro conjI exI [of _ s]) simp_all
qed

theorem BRSetAdd_colliding_hashes_counterexample:
  "distinct (map (\<lambda>item. item) (colliding_keys_8 @ [colliding_key_9])) \<and>
   NULL \<notin> set (colliding_keys_8 @ [colliding_key_9]) \<and>
   Option.bind (BRSetNew 16777216 (\<lambda>item. item) (\<lambda>a b. if a = b then 1 else 0) 9)
     (\<lambda>s0. Option.bind (BRSetAdd_list 16777216 s0 (colliding_keys_8 @ [colliding_key_9]))
        (\<lambda>s. BRSetContains s colliding_key_9)) = Some False"
proof -
  let ?L = "16777216 :: nat"
  let ?h = "\<lambda>item::any_t. item"
  let ?s0 = "\<lparr>map_s = fresh_table, hash = ?h, eq = (\<lambda>a b. if a = b then 1 else 0)\<rparr>"
  have new: "BRSetNew ?L ?h (\<lambda>a b. if a = b then 1 else 0) 9 = Some ?s0"
    by (simp add: BRSetNew_def hashmap_new_eq)
  have ok: "BRSetAdd_list_ok ?L ?s0 colliding_keys_8"
    using colliding_puts_8 [of ?L] colliding_keys_facts(5)
    by (auto simp: BRSetAdd_list_ok_iff)
  from BRSetAdd_list_puts [OF ok] obtain m8 where
    puts: "hashmap_put_list ?L fresh_table (map (\<lambda>x. (x, x)) colliding_keys_8) = Some m8"
    and adds: "BRSetAdd_list ?L ?s0 colliding_keys_8 = Some (?s0\<lparr>map_s := m8\<rparr>)"
    by auto
  from colliding_table [OF puts] obtain m9 where
    put: "hashmap_put ?L m8 colliding_key_9 colliding_key_9 = Some (MAP_OMEM, m9)"
    and m9: "table_ok m9" "colliding_key_9 \<notin> fst ` entries m9"
    by blast
  have get: "hashmap_get m9 colliding_key_9 = NULL"
    using m9 by (rule hashmap_get_not_stored)
  have "BRSetAdd_list ?L ?s0 (colliding_keys_8 @ [colliding_key_9]) = Some (?s0\<lparr>map_s := m9\<rparr>)"
    using adds put colliding_keys_facts(6)
    by (simp add: BRSetAdd_list_append BRSetAdd_eq)
  moreover have "BRSetContains (?s0\<lparr>map_s := m9\<rparr>) colliding_key_9 = Some False"
    using get colliding_keys_facts(6) by (simp add: BRSetContains_def BRSetGet_def)
  moreover have "distinct (map ?h (colliding_keys_8 @ [colliding_key_9]))"
    using colliding_keys_facts(1,3) by simp
  moreover have "NULL \<notin> set (colliding_keys_8 @ [colliding_key_9])"
    using colliding_keys_facts(5,6) by auto
  ultimately show ?thesis
    using new by simp
qed

text \<open>
  Claim C5 (after \<open>capacity/2 - 1\<close> inserts with distinct hashes all items are
  retrievable, and after one more insert, which grows the table, they and the new item
  still are). This holds for puts that report \<^verbatim>\<open>MAP_OK\<close>, whether or not the last put
  doubles the table; it does so when \<^verbatim>\<open>hashmap_hash\<close> reports \<^verbatim>\<open>MAP_FULL\<close>, that is when
  the count has reached half the capacity or the 8 probed slots are taken. Without the
  condition it fails: of 127 keys with distinct hashes of which nine agree on their low 32
  bits, the ninth is never stored.
\<close>

theorem hashmap_growth_keeps_entries:
  assumes new: "hashmap_new lim = Some m0" and d: "distinct (map fst kvs)"
    and puts: "hashmap_put_list lim m0 kvs = Some m" and fresh: "k \<notin> fst ` set kvs"
    and put: "hashmap_put lim m k v = Some (MAP_OK, m')"
  shows "(\<forall>(k', v') \<in> set kvs. hashmap_get m k' = v') \<and>
         hashmap_get m' k = v \<and> (\<forall>(k', v') \<in> set kvs. hashmap_get m' k' = v') \<and>
         hashmap_length (Some m) = int (length kvs) \<and>
         hashmap_length (Some m') = int (length kvs) + 1 \<and>
         (hashmap_hash m k = MAP_FULL \<longrightarrow> 2 * table_size m \<le> table_size m') \<and>
         (hashmap_hash m k \<noteq> MAP_FULL \<longrightarrow> table_size m' = table_size m) \<and>
         (int (table_size m div 2) \<le> int (length kvs) \<longrightarrow> hashmap_hash m k = MAP_FULL)"
proof -
  from new have m0: "m0 = fresh_table"
    by (simp add: hashmap_new_eq split: if_splits)
  have fr0: "\<forall>k\<in>fst ` set kvs. k \<notin> fst ` entries fresh_table"
    by (simp add: fresh_table_inv(3))
  from hashmap_put_list_sem [OF puts [unfolded m0] fresh_table_inv(1,2) d fr0]
  have inv: "chain_ok m" and cnt: "count_ok m" and ent: "entries m = set kvs"
    by (simp_all add: fresh_table_inv(3))
  from fresh have fr: "k \<notin> fst ` entries m"
    by (simp add: ent)
  note m' = hashmap_put_new_key [OF put inv cnt fr]
  from d have "distinct kvs"
    by (simp add: distinct_map)
  then have card: "card (set kvs) = length kvs"
    by (rule distinct_card)
  from cnt occupied_card [OF inv] ent card have size: "size_m m = int (length kvs)"
    by (simp add: count_ok_def)
  from fresh have "(k, v) \<notin> set kvs" by force
  with m'(2) occupied_card [OF m'(1)] m'(3) ent card have size': "size_m m' = int (length kvs) + 1"
    by (simp add: count_ok_def)
  have g: "\<forall>(k', v') \<in> set kvs. hashmap_get m k' = v'"
    using hashmap_get_stored [OF inv] by (auto simp: ent)
  have g': "hashmap_get m' k = v" "\<forall>(k', v') \<in> set kvs. hashmap_get m' k' = v'"
    using hashmap_get_stored [OF m'(1)] by (auto simp: m'(3) ent)
  have grow: "2 * table_size m \<le> table_size m'" if full: "hashmap_hash m k = MAP_FULL"
  proof -
    from put full obtain st1 m1 where re: "hashmap_rehash_fuel lim lim m = Some (st1, m1)"
      and res: "(if st1 = MAP_OMEM then Some (MAP_OMEM, m1) else hashmap_put_fuel lim lim m1 k v) =
          Some (MAP_OK, m')"
      by (auto simp: hashmap_put_def hashmap_put_fuel_FULL split: option.splits)
    from res have ne: "st1 \<noteq> MAP_OMEM" and p1: "hashmap_put_fuel lim lim m1 k v = Some (MAP_OK, m')"
      by (auto split: if_splits)
    have ok: "table_ok m" using inv by (simp add: chain_ok_def)
    from put_shape(2) [OF re ok] ne have "table_ok m1" "2 * table_size m \<le> table_size m1"
      by auto
    with put_shape(1) [OF p1] show ?thesis by auto
  qed
  have same: "table_size m' = table_size m" if "hashmap_hash m k \<noteq> MAP_FULL"
  proof -
    from that obtain i where "hashmap_hash m k = Slot i"
      by (cases "hashmap_hash m k") auto
    from hashmap_put_Slot [OF this, of lim v] put show ?thesis by auto
  qed
  have full: "hashmap_hash m k = MAP_FULL" if "int (table_size m div 2) \<le> int (length kvs)"
    using that size by (simp add: hashmap_hash_def)
  from g g' size size' grow same full show ?thesis
    by simp
qed

theorem hashmap_growth_keeps_entries_witness:
  "hashmap_new 1024 = Some fresh_table \<and>
   hashmap_put_list 1024 fresh_table growth_kvs = Some growth_table_8 \<and>
   hashmap_hash growth_table_8 843 = MAP_FULL \<and>
   hashmap_put 1024 growth_table_8 843 1843 = Some (MAP_OK, growth_table_9) \<and>
   table_size growth_table_8 = 256 \<and> table_size growth_table_9 = 512 \<and>
   hashmap_length (Some growth_table_9) = 9 \<and>
   hashmap_get growth_table_9 843 = 1843 \<and>
   hashmap_get growth_table_8 482 = 1482 \<and> hashmap_get growth_table_9 482 = 1482 \<and>
   hashmap_get growth_table_9 31 = 1031 \<and> hashmap_get growth_table_9 814 = 1814"
proof -
  have new: "hashmap_new 1024 = Some fresh_table"
    by (simp add: hashmap_new_eq)
  have d: "distinct (map fst growth_kvs)"
    by (simp add: growth_kvs_def)
  have fresh: "843 \<notin> fst ` set growth_kvs"
    by (simp add: growth_kvs_def)
  have slot: "hashmap_hash growth_table_rehashed 843 = Slot 345"
    by (simp add: eval_defs growth_table_rehashed_def)
  have put: "hashmap_put 1024 growth_table_8 843 1843 = Some (MAP_OK, growth_table_9)"
    unfolding hashmap_put_def
    by (simp add: hashmap_put_fuel_FULL [OF growth_full] growth_rehash hashmap_put_fuel_Slot [OF slot])
      (simp add: growth_table_rehashed_def growth_table_9_def)
  note facts = hashmap_growth_keeps_entries [OF new d growth_puts fresh put]
  from facts have g8: "\<forall>(k', v') \<in> set growth_kvs. hashmap_get growth_table_8 k' = v'"
    and g9: "\<forall>(k', v') \<in> set growth_kvs. hashmap_get growth_table_9 k' = v'"
    and g: "hashmap_get growth_table_9 843 = 1843"
    and l: "hashmap_length (Some growth_table_9) = int (length growth_kvs) + 1"
    by simp_all
  from g8 have "hashmap_get growth_table_8 482 = 1482"
    by (simp add: growth_kvs_def)
  moreover from g9 have "hashmap_get growth_table_9 482 = 1482" "hashmap_get growth_table_9 31 = 1031"
    "hashmap_get growth_table_9 814 = 1814"
    by (simp_all add: growth_kvs_def)
  moreover from l have "hashmap_length (Some growth_table_9) = 9"
    by (simp add: growth_kvs_def)
  moreover have "table_size growth_table_8 = 256" "table_size growth_table_9 = 512"
    by (simp_all add: growth_table_8_def growth_table_9_def)
  ultimately show ?thesis
    using new growth_puts growth_full put g by simp
qed

theorem hashmap_put_colliding_keys_counterexample:
  "length colliding_kvs_127 = 127 \<and> distinct (map fst colliding_kvs_127) \<and>
   (colliding_key_9, colliding_key_9) \<in> set colliding_kvs_127 \<and> colliding_key_9 \<noteq> NULL \<and>
   Option.bind (hashmap_new 16777216)
     (\<lambda>m0. map_option (\<lambda>m. hashmap_get m colliding_key_9)
        (hashmap_put_run 16777216 m0 colliding_kvs_127)) = Some NULL"
proof -
  let ?L = "16777216 :: nat"
  let ?rest = "map of_nat [2..<120] :: any_t list"
  let ?p = "\<lambda>x::any_t. (x, x)"
  have split: "colliding_kvs_127 = map ?p colliding_keys_8 @ [?p colliding_key_9] @ map ?p ?rest"
    by (simp add: colliding_kvs_127_def del: upt_rec_numeral)
  have len: "length colliding_kvs_127 = 127"
    by (simp add: colliding_kvs_127_def colliding_keys_facts(2) del: upt_rec_numeral)
  have small: "unat k = 1 \<or> 120 \<le> unat k" if "k \<in> set colliding_keys_8 \<or> k = colliding_key_9" for k
    using that by (auto simp: colliding_keys_8_def colliding_key_9_def)
  have disj: "k \<notin> set ?rest" if "k \<in> set colliding_keys_8 \<or> k = colliding_key_9" for k
    using small [OF that] of_nat_upt_small [of k] by auto
  have fsts: "map fst colliding_kvs_127 = colliding_keys_8 @ [colliding_key_9] @ ?rest"
    by (simp add: colliding_kvs_127_def comp_def del: upt_rec_numeral)
  have dist: "distinct (map fst colliding_kvs_127)"
    unfolding fsts using colliding_keys_facts(1,3) of_nat_upt_distinct disj
    by (simp del: map_map upt_rec_numeral) blast
  have mem: "(colliding_key_9, colliding_key_9) \<in> set colliding_kvs_127"
    unfolding split by simp
  from colliding_puts_8 [of ?L] obtain m8 where
    puts: "hashmap_put_list ?L fresh_table (map ?p colliding_keys_8) = Some m8"
    by blast
  from colliding_table [OF puts] obtain m9 where
    put: "hashmap_put ?L m8 colliding_key_9 colliding_key_9 = Some (MAP_OMEM, m9)"
    and m9: "table_ok m9" "colliding_key_9 \<notin> fst ` entries m9"
    by blast
  have "colliding_key_9 \<notin> fst ` set (map ?p ?rest)"
    using disj [of colliding_key_9] by (simp del: upt_rec_numeral add: image_image)
  from hashmap_put_run_other_keys [OF m9 this, of ?L] obtain m127 where
    run: "hashmap_put_run ?L m9 (map ?p ?rest) = Some m127"
    and m127: "table_ok m127" "colliding_key_9 \<notin> fst ` entries m127"
    by blast
  have "hashmap_put_run ?L fresh_table colliding_kvs_127 = Some m127"
    unfolding split using hashmap_put_list_run [OF puts] put run
    by (simp add: hashmap_put_run_append del: upt_rec_numeral)
  moreover have "hashmap_get m127 colliding_key_9 = NULL"
    using m127 by (rule hashmap_get_not_stored)
  ultimately have "Option.bind (hashmap_new 16777216)
     (\<lambda>m0. map_option (\<lambda>m. hashmap_get m colliding_key_9)
        (hashmap_put_run 16777216 m0 colliding_kvs_127)) = Some NULL"
    by (simp add: hashmap_new_eq)
  with len dist mem colliding_keys_facts(6) show ?thesis
    by blast
qed

end
